theory Spec2Isabelle
  imports Main
begin

section \<open>Collaborators of the search: board and heuristic\<close>

text \<open>
  The two players of \<^verbatim>\<open>players.py\<close> search a game tree over a \<^verbatim>\<open>Board\<close> and score
  positions with a \<^verbatim>\<open>Heuristic\<close>. Player ids are 1 and 2 (constructor docstrings:
  ``can take values 1 or 2 (0 = empty)''), so a cell is either empty or holds a player.
\<close>

datatype player = P1 | P2

type_synonym cell = "player option"

text \<open>
  Modelled from the spec: the class \<^verbatim>\<open>Board\<close> (module \<^verbatim>\<open>board\<close>, imported by
  \<^verbatim>\<open>players.py\<close>). A board is a grid of cells, here the list of its columns, each column
  listed from its lowest cell upwards. \<^verbatim>\<open>is_valid(column)\<close> holds iff the column has at
  least one empty cell; \<^verbatim>\<open>get_new_board(column, playerId)\<close> is a new board with the piece in
  the lowest empty cell of that column.
\<close>

type_synonym Board = "cell list list"

definition width :: "Board \<Rightarrow> nat" where
  "width b = length b"

definition get_board_state :: "Board \<Rightarrow> cell list list" where
  "get_board_state b = b"

definition is_valid :: "Board \<Rightarrow> nat \<Rightarrow> bool" where
  "is_valid b c = (c < length b \<and> None \<in> set (b ! c))"

fun drop_piece :: "cell list \<Rightarrow> player \<Rightarrow> cell list" where
  "drop_piece [] p = []"
| "drop_piece (None # xs) p = Some p # xs"
| "drop_piece (Some q # xs) p = Some q # drop_piece xs p"

definition get_new_board :: "Board \<Rightarrow> nat \<Rightarrow> player \<Rightarrow> Board" where
  "get_new_board b c p = (if c < length b then b[c := drop_piece (b ! c) p] else b)"

text \<open>
  The heuristic: \<^verbatim>\<open>winning(state, N)\<close> is 0 when nobody has N in a row, and
  \<^verbatim>\<open>evaluate_board(playerId, board)\<close> is the static score. Both are parameters of the
  search. The heuristic's counter \<^verbatim>\<open>eval_count\<close> is mutable and lives in the state
  threaded through the search.
\<close>

record Heuristic =
  winning :: "cell list list \<Rightarrow> int \<Rightarrow> int"
  evaluate_board_fn :: "player \<Rightarrow> Board \<Rightarrow> int"

text \<open>
  The state a search changes: the heuristic's \<open>eval_count\<close>, and four observations of the
  run that the code does not store: the moves handed to \<^verbatim>\<open>get_new_board\<close>
  (\<open>applied\<close>), the number of \<^verbatim>\<open>break\<close>s taken (\<open>cutoffs\<close>), the number of legal
  columns those breaks left unexamined (\<open>skipped\<close>), and the root columns examined with
  the value \<^verbatim>\<open>v\<close> computed for each (\<open>examined\<close>).
\<close>

record search_state =
  eval_count :: nat
  applied :: "(Board \<times> nat) list"
  cutoffs :: nat
  skipped :: nat
  examined :: "(nat \<times> int) list"

definition init_state :: search_state where
  "init_state = \<lparr>eval_count = 0, applied = [], cutoffs = 0, skipped = 0, examined = []\<rparr>"

text \<open>
  Modelled from the spec: \<^verbatim>\<open>Heuristic.evaluate_board\<close> increments \<open>eval_count\<close> once per
  call and returns the score.
\<close>

definition evaluate_board :: "Heuristic \<Rightarrow> player \<Rightarrow> Board \<Rightarrow> search_state \<Rightarrow> int \<times> search_state" where
  "evaluate_board h p b st = (evaluate_board_fn h p b, st\<lparr>eval_count := eval_count st + 1\<rparr>)"

text \<open>A call of \<^verbatim>\<open>b.get_new_board(c, p)\<close>, recorded in the state.\<close>

definition apply_move :: "Board \<Rightarrow> nat \<Rightarrow> player \<Rightarrow> search_state \<Rightarrow> Board \<times> search_state" where
  "apply_move b c p st = (get_new_board b c p, st\<lparr>applied := applied st @ [(b, c)]\<rparr>)"

text \<open>The value \<^verbatim>\<open>v\<close> a root loop has computed for column \<^verbatim>\<open>c\<close>, recorded in the state.\<close>

definition note_examined :: "nat \<Rightarrow> int \<Rightarrow> search_state \<Rightarrow> search_state" where
  "note_examined c v st = st\<lparr>examined := examined st @ [(c, v)]\<rparr>"

section \<open>The players\<close>

text \<open>The fields of \<^verbatim>\<open>MinMaxPlayer\<close> and \<^verbatim>\<open>AlphaBetaPlayer\<close> (both have the same).\<close>

record PlayerController =
  player_id :: player
  game_n :: int
  depth :: int
  heuristic :: Heuristic

definition opponent :: "PlayerController \<Rightarrow> player" where
  "opponent self = (if player_id self = P1 then P2 else P1)"

definition terminal_or_depth :: "PlayerController \<Rightarrow> Board \<Rightarrow> int \<Rightarrow> bool" where
  "terminal_or_depth self b d =
     (let state = get_board_state b;
          w = winning (heuristic self) state (game_n self)
      in if w \<noteq> 0 \<or> d = 0 then True
         else \<not> list_ex (is_valid b) [0..<width b])"

definition score :: "PlayerController \<Rightarrow> Board \<Rightarrow> search_state \<Rightarrow> int \<times> search_state" where
  "score self b st = evaluate_board (heuristic self) (player_id self) b st"

text \<open>The number of empty cells: every legal move fills one, so every search ends.\<close>

definition empties :: "Board \<Rightarrow> nat" where
  "empties b = length (filter (\<lambda>x. x = None) (concat b))"

lemma drop_piece_length: "length (drop_piece xs p) = length xs"
  by (induction xs p rule: drop_piece.induct) auto

lemma drop_piece_empties:
  "None \<in> set xs \<Longrightarrow> Suc (length (filter (\<lambda>x. x = None) (drop_piece xs p))) = length (filter (\<lambda>x. x = None) xs)"
  by (induction xs p rule: drop_piece.induct) auto

lemma empties_update:
  "c < length b \<Longrightarrow>
   empties (b[c := ys]) + length (filter (\<lambda>x. x = None) (b ! c)) =
   empties b + length (filter (\<lambda>x. x = None) ys)"
proof (induction b arbitrary: c)
  case Nil
  then show ?case by simp
next
  case (Cons col b)
  show ?case
  proof (cases c)
    case 0
    then show ?thesis by (simp add: empties_def)
  next
    case (Suc k)
    with Cons.prems have "k < length b" by simp
    from Cons.IH [OF this] Suc show ?thesis by (simp add: empties_def)
  qed
qed

lemma get_new_board_empties:
  assumes "is_valid b c"
  shows "empties (get_new_board b c p) < empties b"
proof -
  from assms have c: "c < length b" and e: "None \<in> set (b ! c)"
    by (simp_all add: is_valid_def)
  from empties_update [OF c, of "drop_piece (b ! c) p"] drop_piece_empties [OF e, of p] c
  show ?thesis by (simp add: get_new_board_def)
qed

subsection \<open>MinMaxPlayer\<close>

function mm_rec :: "PlayerController \<Rightarrow> Board \<Rightarrow> int \<Rightarrow> bool \<Rightarrow> search_state \<Rightarrow> int \<times> search_state"
  and mm_max_loop :: "PlayerController \<Rightarrow> Board \<Rightarrow> int \<Rightarrow> nat list \<Rightarrow> int \<Rightarrow> search_state \<Rightarrow> int \<times> search_state"
  and mm_min_loop :: "PlayerController \<Rightarrow> Board \<Rightarrow> int \<Rightarrow> nat list \<Rightarrow> int \<Rightarrow> search_state \<Rightarrow> int \<times> search_state"
where
  "mm_rec self b d maximizing st =
     (if terminal_or_depth self b d then score self b st
      else if maximizing then mm_max_loop self b d [0..<width b] (- (10 ^ 9)) st
      else mm_min_loop self b d [0..<width b] (10 ^ 9) st)"
| "mm_max_loop self b d [] best st = (best, st)"
| "mm_max_loop self b d (c # cs) best st =
     (if is_valid b c then
        (case apply_move b c (player_id self) st of (b', st1) \<Rightarrow>
         case mm_rec self b' (d - 1) False st1 of (v, st2) \<Rightarrow>
           mm_max_loop self b d cs (max best v) st2)
      else mm_max_loop self b d cs best st)"
| "mm_min_loop self b d [] best st = (best, st)"
| "mm_min_loop self b d (c # cs) best st =
     (if is_valid b c then
        (case apply_move b c (opponent self) st of (b', st1) \<Rightarrow>
         case mm_rec self b' (d - 1) True st1 of (v, st2) \<Rightarrow>
           mm_min_loop self b d cs (min best v) st2)
      else mm_min_loop self b d cs best st)"
  by pat_completeness auto
termination
  by (relation "measures
        [\<lambda>x. case x of Inl (self, b, d, m, st) \<Rightarrow> empties b
                     | Inr (Inl (self, b, d, cs, best, st)) \<Rightarrow> empties b
                     | Inr (Inr (self, b, d, cs, best, st)) \<Rightarrow> empties b,
         \<lambda>x. case x of Inl (self, b, d, m, st) \<Rightarrow> 1
                     | Inr (Inl (self, b, d, cs, best, st)) \<Rightarrow> 0
                     | Inr (Inr (self, b, d, cs, best, st)) \<Rightarrow> 0,
         \<lambda>x. case x of Inl (self, b, d, m, st) \<Rightarrow> 0
                     | Inr (Inl (self, b, d, cs, best, st)) \<Rightarrow> length cs
                     | Inr (Inr (self, b, d, cs, best, st)) \<Rightarrow> length cs]")
     (auto simp: apply_move_def get_new_board_empties)


text \<open>
  The root loop of \<^verbatim>\<open>MinMaxPlayer.make_move\<close>: \<open>best_col\<close> is \<open>None\<close> until a column
  has been chosen.
\<close>

fun mm_root_loop :: "PlayerController \<Rightarrow> Board \<Rightarrow> nat list \<Rightarrow> int \<Rightarrow> nat option \<Rightarrow> search_state
    \<Rightarrow> (int \<times> nat option) \<times> search_state" where
  "mm_root_loop self board [] best_val best_col st = ((best_val, best_col), st)"
| "mm_root_loop self board (c # cs) best_val best_col st =
     (if is_valid board c then
        (case apply_move board c (player_id self) st of (b', st1) \<Rightarrow>
         case mm_rec self b' (depth self - 1) False st1 of (v, st2) \<Rightarrow>
           if v > best_val then mm_root_loop self board cs v (Some c) (note_examined c v st2)
           else mm_root_loop self board cs best_val best_col (note_examined c v st2))
      else mm_root_loop self board cs best_val best_col st)"

definition mm_root :: "PlayerController \<Rightarrow> Board \<Rightarrow> search_state \<Rightarrow> (int \<times> nat option) \<times> search_state" where
  "mm_root self board st = mm_root_loop self board [0..<width board] (- (10 ^ 9)) None st"

definition MinMaxPlayer_make_move :: "PlayerController \<Rightarrow> Board \<Rightarrow> search_state \<Rightarrow> int \<times> search_state" where
  "MinMaxPlayer_make_move self board st =
     (case mm_root self board st of
        ((best_val, best_col), st') \<Rightarrow>
          ((case best_col of Some c \<Rightarrow> int c | None \<Rightarrow> - 1), st'))"

subsection \<open>AlphaBetaPlayer\<close>

function ab_rec :: "PlayerController \<Rightarrow> Board \<Rightarrow> int \<Rightarrow> int \<Rightarrow> int \<Rightarrow> bool \<Rightarrow> search_state \<Rightarrow> int \<times> search_state"
  and ab_max_loop :: "PlayerController \<Rightarrow> Board \<Rightarrow> int \<Rightarrow> nat list \<Rightarrow> int \<Rightarrow> int \<Rightarrow> int \<Rightarrow> search_state \<Rightarrow> int \<times> search_state"
  and ab_min_loop :: "PlayerController \<Rightarrow> Board \<Rightarrow> int \<Rightarrow> nat list \<Rightarrow> int \<Rightarrow> int \<Rightarrow> int \<Rightarrow> search_state \<Rightarrow> int \<times> search_state"
where
  "ab_rec self b d alpha beta maximizing st =
     (if terminal_or_depth self b d then score self b st
      else if maximizing then ab_max_loop self b d [0..<width b] (- (10 ^ 9)) alpha beta st
      else ab_min_loop self b d [0..<width b] (10 ^ 9) alpha beta st)"
| "ab_max_loop self b d [] val alpha beta st = (val, st)"
| "ab_max_loop self b d (c # cs) val alpha beta st =
     (if is_valid b c then
        (case apply_move b c (player_id self) st of (b', st1) \<Rightarrow>
         case ab_rec self b' (d - 1) alpha beta False st1 of (v, st2) \<Rightarrow>
           let val' = max val v; alpha' = max alpha val'
           in if alpha' \<ge> beta
              then (val', st2\<lparr>cutoffs := cutoffs st2 + 1,
                              skipped := skipped st2 + length (filter (is_valid b) cs)\<rparr>)
              else ab_max_loop self b d cs val' alpha' beta st2)
      else ab_max_loop self b d cs val alpha beta st)"
| "ab_min_loop self b d [] val alpha beta st = (val, st)"
| "ab_min_loop self b d (c # cs) val alpha beta st =
     (if is_valid b c then
        (case apply_move b c (opponent self) st of (b', st1) \<Rightarrow>
         case ab_rec self b' (d - 1) alpha beta True st1 of (v, st2) \<Rightarrow>
           let val' = min val v; beta' = min beta val'
           in if alpha \<ge> beta'
              then (val', st2\<lparr>cutoffs := cutoffs st2 + 1,
                              skipped := skipped st2 + length (filter (is_valid b) cs)\<rparr>)
              else ab_min_loop self b d cs val' alpha beta' st2)
      else ab_min_loop self b d cs val alpha beta st)"
  by pat_completeness auto
termination
  by (relation "measures
        [\<lambda>x. case x of Inl (self, b, d, al, be, m, st) \<Rightarrow> empties b
                     | Inr (Inl (self, b, d, cs, v, al, be, st)) \<Rightarrow> empties b
                     | Inr (Inr (self, b, d, cs, v, al, be, st)) \<Rightarrow> empties b,
         \<lambda>x. case x of Inl (self, b, d, al, be, m, st) \<Rightarrow> 1
                     | Inr (Inl (self, b, d, cs, v, al, be, st)) \<Rightarrow> 0
                     | Inr (Inr (self, b, d, cs, v, al, be, st)) \<Rightarrow> 0,
         \<lambda>x. case x of Inl (self, b, d, al, be, m, st) \<Rightarrow> 0
                     | Inr (Inl (self, b, d, cs, v, al, be, st)) \<Rightarrow> length cs
                     | Inr (Inr (self, b, d, cs, v, al, be, st)) \<Rightarrow> length cs]")
     (auto simp: apply_move_def get_new_board_empties)

text \<open>
  The root loop of \<^verbatim>\<open>AlphaBetaPlayer.make_move\<close>: \<open>best_col\<close> starts at 0, \<open>alpha\<close> runs
  across the root columns and \<open>beta\<close> stays as it is.
\<close>

fun ab_root_loop :: "PlayerController \<Rightarrow> Board \<Rightarrow> nat list \<Rightarrow> int \<Rightarrow> nat \<Rightarrow> int \<Rightarrow> int \<Rightarrow> search_state
    \<Rightarrow> (int \<times> nat) \<times> search_state" where
  "ab_root_loop self board [] best_val best_col alpha beta st = ((best_val, best_col), st)"
| "ab_root_loop self board (c # cs) best_val best_col alpha beta st =
     (if is_valid board c then
        (case apply_move board c (player_id self) st of (b', st1) \<Rightarrow>
         case ab_rec self b' (depth self - 1) alpha beta False st1 of (v, st2) \<Rightarrow>
           if v > best_val
           then ab_root_loop self board cs v c (max alpha v) beta (note_examined c v st2)
           else ab_root_loop self board cs best_val best_col (max alpha best_val) beta
                  (note_examined c v st2))
      else ab_root_loop self board cs best_val best_col alpha beta st)"

definition ab_root :: "PlayerController \<Rightarrow> Board \<Rightarrow> search_state \<Rightarrow> (int \<times> nat) \<times> search_state" where
  "ab_root self board st = ab_root_loop self board [0..<width board] (- (10 ^ 9)) 0 (- (10 ^ 9)) (10 ^ 9) st"

definition AlphaBetaPlayer_make_move :: "PlayerController \<Rightarrow> Board \<Rightarrow> search_state \<Rightarrow> int \<times> search_state" where
  "AlphaBetaPlayer_make_move self board st =
     (case ab_root self board st of ((best_val, best_col), st') \<Rightarrow> (int best_col, st'))"

subsection \<open>Small inputs for running the players\<close>

definition zero_heuristic :: Heuristic where
  "zero_heuristic = \<lparr>winning = (\<lambda>_ _. 0), evaluate_board_fn = (\<lambda>_ _. 0)\<rparr>"

definition low_heuristic :: Heuristic where
  "low_heuristic = \<lparr>winning = (\<lambda>_ _. 0), evaluate_board_fn = (\<lambda>_ _. - (10 ^ 9))\<rparr>"

definition one_sided_heuristic :: Heuristic where
  "one_sided_heuristic =
     \<lparr>winning = (\<lambda>_ _. 0), evaluate_board_fn = (\<lambda>p _. if p = P1 then 0 else 7)\<rparr>"

definition pieces_heuristic :: Heuristic where
  "pieces_heuristic =
     \<lparr>winning = (\<lambda>_ _. 0),
      evaluate_board_fn = (\<lambda>_ b. int (length (filter (\<lambda>x. x \<noteq> None) (concat b))))\<rparr>"

definition example_player :: "Heuristic \<Rightarrow> int \<Rightarrow> PlayerController" where
  "example_player h d = \<lparr>player_id = P1, game_n = 4, depth = d, heuristic = h\<rparr>"

lemmas run_defs =
  MinMaxPlayer_make_move_def mm_root_def AlphaBetaPlayer_make_move_def ab_root_def
  width_def example_player_def zero_heuristic_def low_heuristic_def pieces_heuristic_def
  one_sided_heuristic_def
  init_state_def is_valid_def apply_move_def
  get_new_board_def terminal_or_depth_def score_def evaluate_board_def opponent_def
  get_board_state_def note_examined_def upt_rec mm_rec.simps ab_rec.simps

text \<open>
  The equations of \<open>mm_rec\<close> and \<open>ab_rec\<close> unfold any call, so they are used by name
  only.
\<close>

declare mm_rec.simps [simp del] ab_rec.simps [simp del]

section \<open>Auxiliary notions\<close>

text \<open>Every move in the log was made on a column that is valid on its board.\<close>

definition all_checked :: "search_state \<Rightarrow> bool" where
  "all_checked st = list_all (\<lambda>(b, c). is_valid b c) (applied st)"

text \<open>
  A search adds some number to \<open>eval_count\<close> and some moves to \<open>applied\<close>; the value
  and the leaf count of a minimax node are those of a run from the initial state.
\<close>

definition advance :: "nat \<Rightarrow> (Board \<times> nat) list \<Rightarrow> search_state \<Rightarrow> search_state" where
  "advance k ms s = s\<lparr>eval_count := eval_count s + k, applied := applied s @ ms\<rparr>"

definition mm_value :: "PlayerController \<Rightarrow> Board \<Rightarrow> int \<Rightarrow> bool \<Rightarrow> int" where
  "mm_value self b d mx = fst (mm_rec self b d mx init_state)"

definition mm_max_value :: "PlayerController \<Rightarrow> Board \<Rightarrow> int \<Rightarrow> nat list \<Rightarrow> int \<Rightarrow> int" where
  "mm_max_value self b d cs best = fst (mm_max_loop self b d cs best init_state)"

definition mm_min_value :: "PlayerController \<Rightarrow> Board \<Rightarrow> int \<Rightarrow> nat list \<Rightarrow> int \<Rightarrow> int" where
  "mm_min_value self b d cs best = fst (mm_min_loop self b d cs best init_state)"

definition mm_evals :: "PlayerController \<Rightarrow> Board \<Rightarrow> int \<Rightarrow> bool \<Rightarrow> nat" where
  "mm_evals self b d mx = eval_count (snd (mm_rec self b d mx init_state))"

definition mm_max_evals :: "PlayerController \<Rightarrow> Board \<Rightarrow> int \<Rightarrow> nat list \<Rightarrow> int \<Rightarrow> nat" where
  "mm_max_evals self b d cs best = eval_count (snd (mm_max_loop self b d cs best init_state))"

definition mm_min_evals :: "PlayerController \<Rightarrow> Board \<Rightarrow> int \<Rightarrow> nat list \<Rightarrow> int \<Rightarrow> nat" where
  "mm_min_evals self b d cs best = eval_count (snd (mm_min_loop self b d cs best init_state))"

text \<open>
  How a value \<open>x\<close> returned by the alpha-beta \<^verbatim>\<open>rec\<close> under the window
  \<open>(a, b)\<close> relates to the minimax value \<open>m\<close> of the same node: exact inside the window,
  a bound on \<open>m\<close> outside.
\<close>

definition window_agrees :: "int \<Rightarrow> int \<Rightarrow> int \<Rightarrow> int \<Rightarrow> bool" where
  "window_agrees a b m x = ((x \<le> a \<longrightarrow> m \<le> x) \<and> (b \<le> x \<longrightarrow> x \<le> m) \<and> (a < x \<and> x < b \<longrightarrow> m = x))"

text \<open>
  Every score of the heuristic, for the player of \<open>self\<close>, is above the value \<open>-10\<^sup>9\<close>
  that both searches start their maxima from.
\<close>

definition scores_above :: "PlayerController \<Rightarrow> bool" where
  "scores_above self = (\<forall>b. - (10 ^ 9) < evaluate_board_fn (heuristic self) (player_id self) b)"




text \<open>
  Every move in the log was made on a board fewer than \<open>n\<close> plies (pieces added) below
  the board \<open>root\<close>.
\<close>

definition within_plies :: "Board \<Rightarrow> nat \<Rightarrow> search_state \<Rightarrow> bool" where
  "within_plies root n st = list_all (\<lambda>(b, c). empties root < empties b + n) (applied st)"

text \<open>
  Two players that differ at most in what their heuristics score for the other player's id.
\<close>

definition same_for_player :: "PlayerController \<Rightarrow> PlayerController \<Rightarrow> bool" where
  "same_for_player self self' =
     (player_id self' = player_id self \<and> game_n self' = game_n self \<and> depth self' = depth self \<and>
      winning (heuristic self') = winning (heuristic self) \<and>
      evaluate_board_fn (heuristic self') (player_id self) =
        evaluate_board_fn (heuristic self) (player_id self))"

section \<open>Legality of the moves applied\<close>

lemma all_checked_score: "all_checked st \<Longrightarrow> all_checked (snd (score self b st))"
  by (simp add: all_checked_def score_def evaluate_board_def)

lemma all_checked_apply_move:
  "all_checked st \<Longrightarrow> is_valid b c \<Longrightarrow> all_checked (snd (apply_move b c p st))"
  by (simp add: all_checked_def apply_move_def)

lemma all_checked_note: "all_checked st \<Longrightarrow> all_checked (note_examined c v st)"
  by (simp add: all_checked_def note_examined_def)

lemma all_checked_cut:
  "all_checked st \<Longrightarrow> all_checked (st\<lparr>cutoffs := k, skipped := j\<rparr>)"
  by (simp add: all_checked_def)

lemma mm_rec_checked:
  "all_checked st \<Longrightarrow> all_checked (snd (mm_rec self b d mx st))"
  "all_checked st \<Longrightarrow> all_checked (snd (mm_max_loop self b d cs best st))"
  "all_checked st \<Longrightarrow> all_checked (snd (mm_min_loop self b d cs best st))"
proof (induction self b d mx st and self b d cs best st and self b d cs best st
       rule: mm_rec_mm_max_loop_mm_min_loop.induct)
  case (1 self b d maximizing st)
  then show ?case by (simp add: all_checked_score mm_rec.simps)
next
  case (2 self b d best st)
  then show ?case by simp
next
  case (3 self b d c cs best st)
  show ?case
  proof (cases "is_valid b c")
    case True
    obtain b' st1 where a: "apply_move b c (player_id self) st = (b', st1)" by force
    obtain v st2 where r: "mm_rec self b' (d - 1) False st1 = (v, st2)" by force
    from all_checked_apply_move [OF "3.prems" True, of "player_id self"] a
    have "all_checked st1" by simp
    from "3.IH"(1) [OF True a [symmetric] this] r have "all_checked st2" by simp
    from "3.IH"(2) [OF True a [symmetric] r [symmetric] this] True a r
    show ?thesis by simp
  next
    case False
    with 3 show ?thesis by simp
  qed
next
  case (4 self b d best st)
  then show ?case by simp
next
  case (5 self b d c cs best st)
  show ?case
  proof (cases "is_valid b c")
    case True
    obtain b' st1 where a: "apply_move b c (opponent self) st = (b', st1)" by force
    obtain v st2 where r: "mm_rec self b' (d - 1) True st1 = (v, st2)" by force
    from all_checked_apply_move [OF "5.prems" True, of "opponent self"] a
    have "all_checked st1" by simp
    from "5.IH"(1) [OF True a [symmetric] this] r have "all_checked st2" by simp
    from "5.IH"(2) [OF True a [symmetric] r [symmetric] this] True a r
    show ?thesis by simp
  next
    case False
    with 5 show ?thesis by simp
  qed
qed

lemma ab_rec_checked:
  "all_checked st \<Longrightarrow> all_checked (snd (ab_rec self b d al be mx st))"
  "all_checked st \<Longrightarrow> all_checked (snd (ab_max_loop self b d cs val al be st))"
  "all_checked st \<Longrightarrow> all_checked (snd (ab_min_loop self b d cs val al be st))"
proof (induction self b d al be mx st and self b d cs val al be st and self b d cs val al be st
       rule: ab_rec_ab_max_loop_ab_min_loop.induct)
  case (1 self b d al be maximizing st)
  then show ?case by (simp add: all_checked_score ab_rec.simps)
next
  case (2 self b d val al be st)
  then show ?case by simp
next
  case (3 self b d c cs val al be st)
  show ?case
  proof (cases "is_valid b c")
    case True
    obtain b' st1 where a: "apply_move b c (player_id self) st = (b', st1)" by force
    obtain v st2 where r: "ab_rec self b' (d - 1) al be False st1 = (v, st2)" by force
    from all_checked_apply_move [OF "3.prems" True, of "player_id self"] a
    have "all_checked st1" by simp
    from "3.IH"(1) [OF True a [symmetric] this] r have s2: "all_checked st2" by simp
    show ?thesis
    proof (cases "be \<le> max al (max val v)")
      case True
      with \<open>is_valid b c\<close> a r s2 show ?thesis by (simp add: all_checked_cut Let_def)
    next
      case False
      from "3.IH"(2) [OF \<open>is_valid b c\<close> a [symmetric] r [symmetric] refl refl False s2]
        \<open>is_valid b c\<close> a r False
      show ?thesis by (simp add: Let_def)
    qed
  next
    case False
    with 3 show ?thesis by simp
  qed
next
  case (4 self b d val al be st)
  then show ?case by simp
next
  case (5 self b d c cs val al be st)
  show ?case
  proof (cases "is_valid b c")
    case True
    obtain b' st1 where a: "apply_move b c (opponent self) st = (b', st1)" by force
    obtain v st2 where r: "ab_rec self b' (d - 1) al be True st1 = (v, st2)" by force
    from all_checked_apply_move [OF "5.prems" True, of "opponent self"] a
    have "all_checked st1" by simp
    from "5.IH"(1) [OF True a [symmetric] this] r have s2: "all_checked st2" by simp
    show ?thesis
    proof (cases "min be (min val v) \<le> al")
      case True
      with \<open>is_valid b c\<close> a r s2 show ?thesis by (simp add: all_checked_cut Let_def)
    next
      case False
      from "5.IH"(2) [OF \<open>is_valid b c\<close> a [symmetric] r [symmetric] refl refl False s2]
        \<open>is_valid b c\<close> a r False
      show ?thesis by (simp add: Let_def)
    qed
  next
    case False
    with 5 show ?thesis by simp
  qed
qed

lemma mm_root_loop_checked:
  "all_checked st \<Longrightarrow> all_checked (snd (mm_root_loop self board cs best_val best_col st))"
proof (induction cs arbitrary: best_val best_col st)
  case Nil
  then show ?case by simp
next
  case (Cons c cs)
  show ?case
  proof (cases "is_valid board c")
    case True
    obtain b' st1 where a: "apply_move board c (player_id self) st = (b', st1)" by force
    obtain v st2 where r: "mm_rec self b' (depth self - 1) False st1 = (v, st2)" by force
    from all_checked_apply_move [OF Cons.prems True, of "player_id self"] a
    have "all_checked st1" by simp
    from mm_rec_checked(1) [OF this, of self b' "depth self - 1" False] r
    have "all_checked st2" by simp
    from all_checked_note [OF this] True a r Cons.IH show ?thesis by simp
  next
    case False
    with Cons show ?thesis by simp
  qed
qed

lemma ab_root_loop_checked:
  "all_checked st \<Longrightarrow> all_checked (snd (ab_root_loop self board cs best_val best_col al be st))"
proof (induction cs arbitrary: best_val best_col al st)
  case Nil
  then show ?case by simp
next
  case (Cons c cs)
  show ?case
  proof (cases "is_valid board c")
    case True
    obtain b' st1 where a: "apply_move board c (player_id self) st = (b', st1)" by force
    obtain v st2 where r: "ab_rec self b' (depth self - 1) al be False st1 = (v, st2)" by force
    from all_checked_apply_move [OF Cons.prems True, of "player_id self"] a
    have "all_checked st1" by simp
    from ab_rec_checked(1) [OF this, of self b' "depth self - 1" al be False] r
    have "all_checked st2" by simp
    from all_checked_note [OF this] True a r Cons.IH show ?thesis by simp
  next
    case False
    with Cons show ?thesis by simp
  qed
qed

text \<open>
  C9. In both searches every move handed to \<^verbatim>\<open>get_new_board\<close>, in the root loops and in
  every maximizing and minimizing ply of \<^verbatim>\<open>rec\<close>, is on a column for which \<^verbatim>\<open>is_valid\<close>
  holds on the same board: a run that starts with a log of checked moves ends with one.
\<close>

theorem moves_checked:
  "all_checked st \<Longrightarrow>
   all_checked (snd (MinMaxPlayer_make_move self board st)) \<and>
   all_checked (snd (AlphaBetaPlayer_make_move self board st))"
  using mm_root_loop_checked [of st self board "[0..<width board]" "- (10 ^ 9)" None]
    ab_root_loop_checked [of st self board "[0..<width board]" "- (10 ^ 9)" 0 "- (10 ^ 9)" "10 ^ 9"]
  by (auto simp: MinMaxPlayer_make_move_def AlphaBetaPlayer_make_move_def mm_root_def ab_root_def
      split: prod.splits)

theorem moves_checked_witness:
  "all_checked init_state \<and>
   all_checked (snd (MinMaxPlayer_make_move (example_player zero_heuristic 2) [[None], [None]] init_state)) \<and>
   all_checked (snd (AlphaBetaPlayer_make_move (example_player zero_heuristic 2) [[None], [None]] init_state))"
proof -
  have h: "all_checked init_state" by (simp add: all_checked_def init_state_def)
  from moves_checked [OF h, of "example_player zero_heuristic 2" "[[None], [None]]"] h
  show ?thesis by simp
qed

section \<open>Leaves and full boards\<close>

text \<open>
  No node of either search consults the heuristic for the player to move: the searches of
  two players whose heuristics agree on the scores for \<open>player_id\<close> are the same, whatever
  the heuristics score for the opponent.
\<close>

lemma same_for_player_leaf:
  "same_for_player self self' \<Longrightarrow>
   terminal_or_depth self' b d = terminal_or_depth self b d \<and> score self' b st = score self b st \<and>
   opponent self' = opponent self"
  by (simp add: same_for_player_def terminal_or_depth_def score_def evaluate_board_def opponent_def)

lemma mm_rec_same_for_player:
  "same_for_player self self' \<Longrightarrow> mm_rec self' b d mx st = mm_rec self b d mx st"
  "same_for_player self self' \<Longrightarrow>
   mm_max_loop self' b d cs best st = mm_max_loop self b d cs best st"
  "same_for_player self self' \<Longrightarrow>
   mm_min_loop self' b d cs best st = mm_min_loop self b d cs best st"
proof (induction self b d mx st and self b d cs best st and self b d cs best st
       rule: mm_rec_mm_max_loop_mm_min_loop.induct)
  case (1 self b d maximizing st)
  from same_for_player_leaf [OF "1.prems", of b d st] "1.IH" "1.prems"
  show ?case by (simp add: mm_rec.simps [of self'] mm_rec.simps [of self])
next
  case (2 self b d best st)
  then show ?case by simp
next
  case (3 self b d c cs best st)
  from "3.prems" have p: "player_id self' = player_id self" by (simp add: same_for_player_def)
  show ?case
  proof (cases "is_valid b c")
    case True
    obtain b' st1 where a: "apply_move b c (player_id self) st = (b', st1)" by force
    obtain v st2 where r: "mm_rec self b' (d - 1) False st1 = (v, st2)" by force
    from "3.IH"(1) [OF True a [symmetric] "3.prems"]
      "3.IH"(2) [OF True a [symmetric] r [symmetric] "3.prems"] True a r p
    show ?thesis by simp
  next
    case False
    with "3.IH"(3) [OF False "3.prems"] show ?thesis by simp
  qed
next
  case (4 self b d best st)
  then show ?case by simp
next
  case (5 self b d c cs best st)
  from same_for_player_leaf [OF "5.prems", of b d st]
  have p: "opponent self' = opponent self" by simp
  show ?case
  proof (cases "is_valid b c")
    case True
    obtain b' st1 where a: "apply_move b c (opponent self) st = (b', st1)" by force
    obtain v st2 where r: "mm_rec self b' (d - 1) True st1 = (v, st2)" by force
    from "5.IH"(1) [OF True a [symmetric] "5.prems"]
      "5.IH"(2) [OF True a [symmetric] r [symmetric] "5.prems"] True a r p
    show ?thesis by simp
  next
    case False
    with "5.IH"(3) [OF False "5.prems"] show ?thesis by simp
  qed
qed

lemma ab_rec_same_for_player:
  "same_for_player self self' \<Longrightarrow> ab_rec self' b d al be mx st = ab_rec self b d al be mx st"
  "same_for_player self self' \<Longrightarrow>
   ab_max_loop self' b d cs val al be st = ab_max_loop self b d cs val al be st"
  "same_for_player self self' \<Longrightarrow>
   ab_min_loop self' b d cs val al be st = ab_min_loop self b d cs val al be st"
proof (induction self b d al be mx st and self b d cs val al be st and self b d cs val al be st
       rule: ab_rec_ab_max_loop_ab_min_loop.induct)
  case (1 self b d al be maximizing st)
  from same_for_player_leaf [OF "1.prems", of b d st] "1.IH" "1.prems"
  show ?case by (simp add: ab_rec.simps [of self'] ab_rec.simps [of self])
next
  case (2 self b d val al be st)
  then show ?case by simp
next
  case (3 self b d c cs val al be st)
  from "3.prems" have p: "player_id self' = player_id self" by (simp add: same_for_player_def)
  show ?case
  proof (cases "is_valid b c")
    case True
    obtain b' st1 where a: "apply_move b c (player_id self) st = (b', st1)" by force
    obtain v st2 where r: "ab_rec self b' (d - 1) al be False st1 = (v, st2)" by force
    show ?thesis
    proof (cases "be \<le> max al (max val v)")
      case cut: True
      from "3.IH"(1) [OF True a [symmetric] "3.prems"] True a r p cut
      show ?thesis by (simp add: Let_def)
    next
      case False
      from "3.IH"(1) [OF True a [symmetric] "3.prems"]
        "3.IH"(2) [OF True a [symmetric] r [symmetric] refl refl False "3.prems"] True a r p False
      show ?thesis by (simp add: Let_def)
    qed
  next
    case False
    with "3.IH"(3) [OF False "3.prems"] show ?thesis by simp
  qed
next
  case (4 self b d val al be st)
  then show ?case by simp
next
  case (5 self b d c cs val al be st)
  from same_for_player_leaf [OF "5.prems", of b d st]
  have p: "opponent self' = opponent self" by simp
  show ?case
  proof (cases "is_valid b c")
    case True
    obtain b' st1 where a: "apply_move b c (opponent self) st = (b', st1)" by force
    obtain v st2 where r: "ab_rec self b' (d - 1) al be True st1 = (v, st2)" by force
    show ?thesis
    proof (cases "min be (min val v) \<le> al")
      case cut: True
      from "5.IH"(1) [OF True a [symmetric] "5.prems"] True a r p cut
      show ?thesis by (simp add: Let_def)
    next
      case False
      from "5.IH"(1) [OF True a [symmetric] "5.prems"]
        "5.IH"(2) [OF True a [symmetric] r [symmetric] refl refl False "5.prems"] True a r p False
      show ?thesis by (simp add: Let_def)
    qed
  next
    case False
    with "5.IH"(3) [OF False "5.prems"] show ?thesis by simp
  qed
qed

lemma root_loops_same_for_player:
  assumes "same_for_player self self'"
  shows "mm_root_loop self' board cs bv mbc st = mm_root_loop self board cs bv mbc st"
    and "ab_root_loop self' board cs bv bc al be st = ab_root_loop self board cs bv bc al be st"
proof -
  from assms have p: "player_id self' = player_id self" "depth self' = depth self"
    by (simp_all add: same_for_player_def)
  show "mm_root_loop self' board cs bv mbc st = mm_root_loop self board cs bv mbc st"
    by (induction cs arbitrary: bv mbc st)
      (simp_all add: p mm_rec_same_for_player(1) [OF assms] split: prod.splits)
  show "ab_root_loop self' board cs bv bc al be st = ab_root_loop self board cs bv bc al be st"
    by (induction cs arbitrary: bv bc al st)
      (simp_all add: p ab_rec_same_for_player(1) [OF assms] split: prod.splits)
qed

lemma make_move_same_for_player:
  "same_for_player self self' \<Longrightarrow>
   MinMaxPlayer_make_move self' board st = MinMaxPlayer_make_move self board st \<and>
   AlphaBetaPlayer_make_move self' board st = AlphaBetaPlayer_make_move self board st"
  by (simp add: MinMaxPlayer_make_move_def AlphaBetaPlayer_make_move_def mm_root_def ab_root_def
      root_loops_same_for_player)

text \<open>
  C4. At a terminal or depth-exhausted node both searches return
  \<^verbatim>\<open>evaluate_board(self.player_id, board)\<close>: the score is taken for the player whose
  \<^verbatim>\<open>make_move\<close> runs, on maximizing and on minimizing plies alike; and at no node of the
  tree does a search depend on what the heuristic scores for the other player.
\<close>

theorem leaf_score_root_perspective:
  "(terminal_or_depth self b d \<longrightarrow>
      mm_rec self b d maximizing st = evaluate_board (heuristic self) (player_id self) b st \<and>
      ab_rec self b d alpha beta maximizing st = evaluate_board (heuristic self) (player_id self) b st) \<and>
   (same_for_player self self' \<longrightarrow>
      MinMaxPlayer_make_move self' board st = MinMaxPlayer_make_move self board st \<and>
      AlphaBetaPlayer_make_move self' board st = AlphaBetaPlayer_make_move self board st)"
  using make_move_same_for_player [of self self' board st]
  by (simp add: mm_rec.simps ab_rec.simps score_def)

theorem leaf_score_root_perspective_witness:
  "terminal_or_depth (example_player zero_heuristic 2) [[None], [None]] 0 \<and>
   mm_rec (example_player zero_heuristic 2) [[None], [None]] 0 False init_state =
     evaluate_board zero_heuristic P1 [[None], [None]] init_state \<and>
   ab_rec (example_player zero_heuristic 2) [[None], [None]] 0 (- 5) 7 False init_state =
     evaluate_board zero_heuristic P1 [[None], [None]] init_state \<and>
   same_for_player (example_player zero_heuristic 2) (example_player one_sided_heuristic 2) \<and>
   MinMaxPlayer_make_move (example_player one_sided_heuristic 2) [[None], [None]] init_state =
     MinMaxPlayer_make_move (example_player zero_heuristic 2) [[None], [None]] init_state \<and>
   AlphaBetaPlayer_make_move (example_player one_sided_heuristic 2) [[None], [None]] init_state =
     AlphaBetaPlayer_make_move (example_player zero_heuristic 2) [[None], [None]] init_state"
proof -
  have h: "terminal_or_depth (example_player zero_heuristic 2) [[None], [None]] 0"
    by (simp add: terminal_or_depth_def)
  have s: "same_for_player (example_player zero_heuristic 2) (example_player one_sided_heuristic 2)"
    by (simp add: same_for_player_def example_player_def zero_heuristic_def one_sided_heuristic_def)
  from leaf_score_root_perspective [of "example_player zero_heuristic 2" "[[None], [None]]" 0
      False init_state "- 5" 7 "example_player one_sided_heuristic 2" "[[None], [None]]"] h s
  show ?thesis by (simp add: example_player_def)
qed

lemma mm_root_loop_full:
  "\<not> list_ex (is_valid board) cs \<Longrightarrow>
   mm_root_loop self board cs best_val best_col st = ((best_val, best_col), st)"
  by (induction cs) auto

lemma ab_root_loop_full:
  "\<not> list_ex (is_valid board) cs \<Longrightarrow>
   ab_root_loop self board cs best_val best_col al be st = ((best_val, best_col), st)"
  by (induction cs) auto

text \<open>
  C6. On a board with no valid column \<^verbatim>\<open>AlphaBetaPlayer.make_move\<close> returns column 0 and
  \<^verbatim>\<open>MinMaxPlayer.make_move\<close> returns -1.
\<close>

theorem full_board_results:
  "\<not> list_ex (is_valid board) [0..<width board] \<Longrightarrow>
   fst (AlphaBetaPlayer_make_move self board st) = 0 \<and>
   fst (MinMaxPlayer_make_move self board st) = - 1"
  by (simp add: AlphaBetaPlayer_make_move_def MinMaxPlayer_make_move_def ab_root_def mm_root_def
      mm_root_loop_full ab_root_loop_full)

theorem full_board_results_witness:
  "\<not> list_ex (is_valid [[Some P1], [Some P2]]) [0..<width [[Some P1], [Some P2]]] \<and>
   fst (AlphaBetaPlayer_make_move (example_player zero_heuristic 2) [[Some P1], [Some P2]] init_state) = 0 \<and>
   fst (MinMaxPlayer_make_move (example_player zero_heuristic 2) [[Some P1], [Some P2]] init_state) = - 1"
proof -
  have h: "\<not> list_ex (is_valid [[Some P1], [Some P2]]) [0..<width [[Some P1], [Some P2]]]"
    by (simp add: width_def is_valid_def upt_rec)
  from full_board_results [OF h, of "example_player zero_heuristic 2" init_state] h
  show ?thesis by simp
qed

section \<open>The column returned by the alpha-beta player\<close>

lemma ab_root_loop_col:
  "best_col = 0 \<or> is_valid board best_col \<Longrightarrow>
   (let c = snd (fst (ab_root_loop self board cs best_val best_col al be st))
    in c = 0 \<or> is_valid board c)"
proof (induction cs arbitrary: best_val best_col al st)
  case Nil
  then show ?case by simp
next
  case (Cons c cs)
  show ?case
  proof (cases "is_valid board c")
    case True
    obtain b' st1 where a: "apply_move board c (player_id self) st = (b', st1)" by force
    obtain v st2 where r: "ab_rec self b' (depth self - 1) al be False st1 = (v, st2)" by force
    from True have "c = 0 \<or> is_valid board c" by simp
    from Cons.IH [OF this] Cons.IH [OF Cons.prems] True a r show ?thesis by simp
  next
    case False
    with Cons show ?thesis by simp
  qed
qed

text \<open>
  C10. On a board of width at least 1 \<^verbatim>\<open>AlphaBetaPlayer.make_move\<close> returns a column
  \<open>c\<close> with \<open>0 \<le> c < width\<close>, which is the default 0 or a column valid on the board.
\<close>

theorem alphabeta_column_in_range:
  "1 \<le> width board \<Longrightarrow>
   0 \<le> fst (AlphaBetaPlayer_make_move self board st) \<and>
   fst (AlphaBetaPlayer_make_move self board st) < int (width board) \<and>
   (fst (AlphaBetaPlayer_make_move self board st) = 0 \<or>
    is_valid board (nat (fst (AlphaBetaPlayer_make_move self board st))))"
  using ab_root_loop_col [of 0 board self "[0..<width board]" "- (10 ^ 9)" "- (10 ^ 9)" "10 ^ 9" st]
  by (auto simp: AlphaBetaPlayer_make_move_def ab_root_def Let_def is_valid_def width_def
      split: prod.splits)

theorem alphabeta_column_in_range_witness:
  "1 \<le> width [[Some P1], [None]] \<and>
   0 \<le> fst (AlphaBetaPlayer_make_move (example_player zero_heuristic 1) [[Some P1], [None]] init_state) \<and>
   fst (AlphaBetaPlayer_make_move (example_player zero_heuristic 1) [[Some P1], [None]] init_state)
     < int (width [[Some P1], [None]])"
proof -
  have h: "1 \<le> width [[Some P1], [None]]" by (simp add: width_def)
  from alphabeta_column_in_range [OF h, of "example_player zero_heuristic 1" init_state] h
  show ?thesis by simp
qed

section \<open>Minimax values and leaf counts of a node\<close>

text \<open>
  What a call of the minimax \<^verbatim>\<open>rec\<close> returns and how many leaves it evaluates does not
  depend on the state it starts in: the call adds a fixed number to \<open>eval_count\<close> and a
  fixed list of moves to \<open>applied\<close>.
\<close>

lemma advance_advance: "advance k' ms' (advance k ms s) = advance (k + k') (ms @ ms') s"
  by (simp add: advance_def add.assoc)

lemma eval_count_advance: "eval_count (advance k ms s) = eval_count s + k"
  by (simp add: advance_def)

lemma score_advance:
  "score self b s = (evaluate_board_fn (heuristic self) (player_id self) b, advance 1 [] s)"
  by (simp add: score_def evaluate_board_def advance_def)

lemma apply_move_advance: "apply_move b c p s = (get_new_board b c p, advance 0 [(b, c)] s)"
  by (simp add: apply_move_def advance_def)

lemma mm_normal_form:
  fixes st :: search_state
  shows "\<exists>v k ms. \<forall>s. mm_rec self b d mx s = (v, advance k ms s)"
    and "\<exists>v k ms. \<forall>s. mm_max_loop self b d cs best s = (v, advance k ms s)"
    and "\<exists>v k ms. \<forall>s. mm_min_loop self b d cs best s = (v, advance k ms s)"
proof (induction self b d mx st and self b d cs best st and self b d cs best st
       rule: mm_rec_mm_max_loop_mm_min_loop.induct)
  case (1 self b d maximizing st)
  show ?case
  proof (cases "terminal_or_depth self b d")
    case True
    then show ?thesis by (simp add: mm_rec.simps score_advance) blast
  next
    case False
    with 1 show ?thesis by (cases maximizing) (simp_all add: mm_rec.simps)
  qed
next
  case (2 self b d best st)
  have "\<forall>s. mm_max_loop self b d [] best s = (best, advance 0 [] s)"
    by (simp add: advance_def)
  then show ?case by blast
next
  case (3 self b d c cs best st)
  show ?case
  proof (cases "is_valid b c")
    case True
    let ?b' = "get_new_board b c (player_id self)"
    have a: "(?b', advance 0 [(b, c)] st) = apply_move b c (player_id self) st"
      by (simp add: apply_move_advance)
    from "3.IH"(1) [OF True a] obtain v1 k1 ms1
      where r: "\<And>s. mm_rec self ?b' (d - 1) False s = (v1, advance k1 ms1 s)" by blast
    from "3.IH"(2) [OF True a r [symmetric]] obtain v2 k2 ms2
      where l: "\<And>s. mm_max_loop self b d cs (max best v1) s = (v2, advance k2 ms2 s)" by blast
    have "\<forall>s. mm_max_loop self b d (c # cs) best s =
            (v2, advance (0 + k1 + k2) (([(b, c)] @ ms1) @ ms2) s)"
      using True by (simp add: apply_move_advance r l advance_advance)
    then show ?thesis by blast
  next
    case False
    with "3.IH"(3) show ?thesis by simp
  qed
next
  case (4 self b d best st)
  have "\<forall>s. mm_min_loop self b d [] best s = (best, advance 0 [] s)"
    by (simp add: advance_def)
  then show ?case by blast
next
  case (5 self b d c cs best st)
  show ?case
  proof (cases "is_valid b c")
    case True
    let ?b' = "get_new_board b c (opponent self)"
    have a: "(?b', advance 0 [(b, c)] st) = apply_move b c (opponent self) st"
      by (simp add: apply_move_advance)
    from "5.IH"(1) [OF True a] obtain v1 k1 ms1
      where r: "\<And>s. mm_rec self ?b' (d - 1) True s = (v1, advance k1 ms1 s)" by blast
    from "5.IH"(2) [OF True a r [symmetric]] obtain v2 k2 ms2
      where l: "\<And>s. mm_min_loop self b d cs (min best v1) s = (v2, advance k2 ms2 s)" by blast
    have "\<forall>s. mm_min_loop self b d (c # cs) best s =
            (v2, advance (0 + k1 + k2) (([(b, c)] @ ms1) @ ms2) s)"
      using True by (simp add: apply_move_advance r l advance_advance)
    then show ?thesis by blast
  next
    case False
    with "5.IH"(3) show ?thesis by simp
  qed
qed

lemma mm_rec_fst: "fst (mm_rec self b d mx s) = mm_value self b d mx"
proof -
  from mm_normal_form(1) [of self b d mx] obtain v k ms
    where "\<And>s. mm_rec self b d mx s = (v, advance k ms s)" by blast
  then show ?thesis by (simp add: mm_value_def)
qed

lemma mm_rec_evals: "eval_count (snd (mm_rec self b d mx s)) = eval_count s + mm_evals self b d mx"
proof -
  from mm_normal_form(1) [of self b d mx] obtain v k ms
    where "\<And>s. mm_rec self b d mx s = (v, advance k ms s)" by blast
  then show ?thesis by (simp add: mm_evals_def eval_count_advance init_state_def)
qed

lemma mm_max_loop_fst: "fst (mm_max_loop self b d cs best s) = mm_max_value self b d cs best"
proof -
  from mm_normal_form(2) [of self b d cs best] obtain v k ms
    where "\<And>s. mm_max_loop self b d cs best s = (v, advance k ms s)" by blast
  then show ?thesis by (simp add: mm_max_value_def)
qed

lemma mm_max_loop_evals:
  "eval_count (snd (mm_max_loop self b d cs best s)) = eval_count s + mm_max_evals self b d cs best"
proof -
  from mm_normal_form(2) [of self b d cs best] obtain v k ms
    where "\<And>s. mm_max_loop self b d cs best s = (v, advance k ms s)" by blast
  then show ?thesis by (simp add: mm_max_evals_def eval_count_advance init_state_def)
qed

lemma mm_min_loop_fst: "fst (mm_min_loop self b d cs best s) = mm_min_value self b d cs best"
proof -
  from mm_normal_form(3) [of self b d cs best] obtain v k ms
    where "\<And>s. mm_min_loop self b d cs best s = (v, advance k ms s)" by blast
  then show ?thesis by (simp add: mm_min_value_def)
qed

lemma mm_min_loop_evals:
  "eval_count (snd (mm_min_loop self b d cs best s)) = eval_count s + mm_min_evals self b d cs best"
proof -
  from mm_normal_form(3) [of self b d cs best] obtain v k ms
    where "\<And>s. mm_min_loop self b d cs best s = (v, advance k ms s)" by blast
  then show ?thesis by (simp add: mm_min_evals_def eval_count_advance init_state_def)
qed

text \<open>The recursion of the values and of the leaf counts, free of the state.\<close>

lemma mm_value_unfold:
  "mm_value self b d mx =
     (if terminal_or_depth self b d then evaluate_board_fn (heuristic self) (player_id self) b
      else if mx then mm_max_value self b d [0..<width b] (- (10 ^ 9))
      else mm_min_value self b d [0..<width b] (10 ^ 9))"
  by (simp add: mm_value_def mm_max_value_def mm_min_value_def mm_rec.simps score_advance)

lemma mm_evals_unfold:
  "mm_evals self b d mx =
     (if terminal_or_depth self b d then 1
      else if mx then mm_max_evals self b d [0..<width b] (- (10 ^ 9))
      else mm_min_evals self b d [0..<width b] (10 ^ 9))"
  by (simp add: mm_evals_def mm_max_evals_def mm_min_evals_def mm_rec.simps score_advance
      eval_count_advance init_state_def)

lemma mm_max_value_Nil: "mm_max_value self b d [] best = best"
  by (simp add: mm_max_value_def)

lemma mm_min_value_Nil: "mm_min_value self b d [] best = best"
  by (simp add: mm_min_value_def)

lemma mm_max_evals_Nil: "mm_max_evals self b d [] best = 0"
  by (simp add: mm_max_evals_def init_state_def)

lemma mm_min_evals_Nil: "mm_min_evals self b d [] best = 0"
  by (simp add: mm_min_evals_def init_state_def)

lemma mm_max_loop_Cons:
  "mm_max_loop self b d (c # cs) best s =
     (if is_valid b c then
        mm_max_loop self b d cs
          (max best (mm_value self (get_new_board b c (player_id self)) (d - 1) False))
          (snd (mm_rec self (get_new_board b c (player_id self)) (d - 1) False
             (advance 0 [(b, c)] s)))
      else mm_max_loop self b d cs best s)"
proof (cases "is_valid b c")
  case True
  obtain v st2 where r: "mm_rec self (get_new_board b c (player_id self)) (d - 1) False
      (advance 0 [(b, c)] s) = (v, st2)" by force
  with mm_rec_fst [of self "get_new_board b c (player_id self)" "d - 1" False "advance 0 [(b, c)] s"]
  have "v = mm_value self (get_new_board b c (player_id self)) (d - 1) False" by simp
  with True r show ?thesis by (simp add: apply_move_advance)
next
  case False
  then show ?thesis by simp
qed

lemma mm_min_loop_Cons:
  "mm_min_loop self b d (c # cs) best s =
     (if is_valid b c then
        mm_min_loop self b d cs
          (min best (mm_value self (get_new_board b c (opponent self)) (d - 1) True))
          (snd (mm_rec self (get_new_board b c (opponent self)) (d - 1) True
             (advance 0 [(b, c)] s)))
      else mm_min_loop self b d cs best s)"
proof (cases "is_valid b c")
  case True
  obtain v st2 where r: "mm_rec self (get_new_board b c (opponent self)) (d - 1) True
      (advance 0 [(b, c)] s) = (v, st2)" by force
  with mm_rec_fst [of self "get_new_board b c (opponent self)" "d - 1" True "advance 0 [(b, c)] s"]
  have "v = mm_value self (get_new_board b c (opponent self)) (d - 1) True" by simp
  with True r show ?thesis by (simp add: apply_move_advance)
next
  case False
  then show ?thesis by simp
qed

lemma mm_max_value_Cons:
  "mm_max_value self b d (c # cs) best =
     (if is_valid b c then
        mm_max_value self b d cs
          (max best (mm_value self (get_new_board b c (player_id self)) (d - 1) False))
      else mm_max_value self b d cs best)"
  unfolding mm_max_value_def [of self b d "c # cs"] mm_max_loop_Cons
  by (simp add: mm_max_loop_fst)

lemma mm_min_value_Cons:
  "mm_min_value self b d (c # cs) best =
     (if is_valid b c then
        mm_min_value self b d cs
          (min best (mm_value self (get_new_board b c (opponent self)) (d - 1) True))
      else mm_min_value self b d cs best)"
  unfolding mm_min_value_def [of self b d "c # cs"] mm_min_loop_Cons
  by (simp add: mm_min_loop_fst)

lemma mm_max_evals_Cons:
  "mm_max_evals self b d (c # cs) best =
     (if is_valid b c then
        mm_evals self (get_new_board b c (player_id self)) (d - 1) False +
        mm_max_evals self b d cs
          (max best (mm_value self (get_new_board b c (player_id self)) (d - 1) False))
      else mm_max_evals self b d cs best)"
  unfolding mm_max_evals_def [of self b d "c # cs"] mm_max_loop_Cons
  by (simp add: mm_max_loop_evals mm_rec_evals eval_count_advance init_state_def)

lemma mm_min_evals_Cons:
  "mm_min_evals self b d (c # cs) best =
     (if is_valid b c then
        mm_evals self (get_new_board b c (opponent self)) (d - 1) True +
        mm_min_evals self b d cs
          (min best (mm_value self (get_new_board b c (opponent self)) (d - 1) True))
      else mm_min_evals self b d cs best)"
  unfolding mm_min_evals_def [of self b d "c # cs"] mm_min_loop_Cons
  by (simp add: mm_min_loop_evals mm_rec_evals eval_count_advance init_state_def)

section \<open>Alpha-beta against minimax: values\<close>

lemma mm_max_value_max:
  "mm_max_value self b d cs (max x y) = max x (mm_max_value self b d cs y)"
proof (induction cs arbitrary: y)
  case Nil
  then show ?case by (simp add: mm_max_value_Nil)
next
  case (Cons c cs)
  show ?case
    using Cons.IH [of "max y (mm_value self (get_new_board b c (player_id self)) (d - 1) False)"]
      Cons.IH [of y]
    by (simp add: mm_max_value_Cons max.assoc)
qed

lemma mm_min_value_min:
  "mm_min_value self b d cs (min x y) = min x (mm_min_value self b d cs y)"
proof (induction cs arbitrary: y)
  case Nil
  then show ?case by (simp add: mm_min_value_Nil)
next
  case (Cons c cs)
  show ?case
    using Cons.IH [of "min y (mm_value self (get_new_board b c (opponent self)) (d - 1) True)"]
      Cons.IH [of y]
    by (simp add: mm_min_value_Cons min.assoc)
qed

lemma mm_max_value_ge: "- (10 ^ 9) \<le> mm_max_value self b d cs (- (10 ^ 9))"
  using mm_max_value_max [of self b d cs "- (10 ^ 9)" "- (10 ^ 9)"] by (simp add: max_def split: if_splits)

lemma mm_min_value_le: "mm_min_value self b d cs (10 ^ 9) \<le> 10 ^ 9"
  using mm_min_value_min [of self b d cs "10 ^ 9" "10 ^ 9"] by (simp add: min_def split: if_splits)

lemma window_max_cut:
  assumes "window_agrees a b m v" "a < b" "b \<le> max a (max val v)" "val \<le> a"
  shows "window_agrees a b (max m r) (max val v)"
  using assms by (auto simp: window_agrees_def max_def split: if_splits)

lemma window_max_step:
  assumes "window_agrees a b m v" "window_agrees (max a (max val v)) b r x"
    "a < b" "val \<le> a" "max val v \<le> x"
  shows "window_agrees a b (max m r) x"
  using assms by (auto simp: window_agrees_def max_def split: if_splits)

lemma window_min_cut:
  assumes "window_agrees a b m v" "a < b" "min b (min val v) \<le> a" "b \<le> val"
  shows "window_agrees a b (min m r) (min val v)"
  using assms by (auto simp: window_agrees_def min_def split: if_splits)

lemma window_min_step:
  assumes "window_agrees a b m v" "window_agrees a (min b (min val v)) r x"
    "a < b" "b \<le> val" "x \<le> min val v"
  shows "window_agrees a b (min m r) x"
  using assms by (auto simp: window_agrees_def min_def split: if_splits)

lemma ab_window:
  "- (10 ^ 9) \<le> al \<Longrightarrow> al < be \<Longrightarrow> be \<le> 10 ^ 9 \<Longrightarrow>
   window_agrees al be (mm_value self b d mx) (fst (ab_rec self b d al be mx st))"
  "- (10 ^ 9) \<le> val \<Longrightarrow> val \<le> al \<Longrightarrow> al < be \<Longrightarrow> be \<le> 10 ^ 9 \<Longrightarrow>
   val \<le> fst (ab_max_loop self b d cs val al be st) \<and>
   window_agrees al be (mm_max_value self b d cs (- (10 ^ 9)))
     (fst (ab_max_loop self b d cs val al be st))"
  "- (10 ^ 9) \<le> al \<Longrightarrow> al < be \<Longrightarrow> be \<le> val \<Longrightarrow> val \<le> 10 ^ 9 \<Longrightarrow>
   fst (ab_min_loop self b d cs val al be st) \<le> val \<and>
   window_agrees al be (mm_min_value self b d cs (10 ^ 9))
     (fst (ab_min_loop self b d cs val al be st))"
proof (induction self b d al be mx st and self b d cs val al be st and self b d cs val al be st
       rule: ab_rec_ab_max_loop_ab_min_loop.induct)
  case (1 self b d al be maximizing st)
  show ?case
  proof (cases "terminal_or_depth self b d")
    case True
    then show ?thesis
      by (simp add: ab_rec.simps mm_value_unfold score_advance window_agrees_def)
  next
    case False
    show ?thesis
    proof (cases maximizing)
      case True
      from "1.IH"(1) [OF False True _ _ "1.prems"(2,3)] "1.prems"(1) False True
      show ?thesis by (simp add: ab_rec.simps mm_value_unfold)
    next
      case nmx: False
      from "1.IH"(2) [OF False nmx "1.prems"(1,2)] "1.prems"(3) False nmx
      show ?thesis by (simp add: ab_rec.simps mm_value_unfold)
    qed
  qed
next
  case (2 self b d val al be st)
  then show ?case by (simp add: mm_max_value_Nil window_agrees_def)
next
  case (3 self b d c cs val al be st)
  show ?case
  proof (cases "is_valid b c")
    case True
    let ?b' = "get_new_board b c (player_id self)"
    let ?m = "mm_value self ?b' (d - 1) False"
    let ?r = "mm_max_value self b d cs (- (10 ^ 9))"
    obtain st1 where a: "apply_move b c (player_id self) st = (?b', st1)"
      by (simp add: apply_move_def)
    obtain v st2 where r: "ab_rec self ?b' (d - 1) al be False st1 = (v, st2)" by force
    have lo: "- (10 ^ 9) \<le> al" using "3.prems" by simp
    from "3.IH"(1) [OF True a [symmetric] lo "3.prems"(3,4)] r
    have w: "window_agrees al be ?m v" by simp
    have mm: "mm_max_value self b d (c # cs) (- (10 ^ 9)) = max ?m ?r"
      using True mm_max_value_max [of self b d cs ?m "- (10 ^ 9)"]
      by (simp add: mm_max_value_Cons max.commute)
    show ?thesis
    proof (cases "be \<le> max al (max val v)")
      case cut: True
      from window_max_cut [OF w "3.prems"(3) cut "3.prems"(2), of ?r] True a r cut mm
      show ?thesis by (simp add: Let_def)
    next
      case False
      have p: "- (10 ^ 9) \<le> max val v" "max val v \<le> max al (max val v)"
        "max al (max val v) < be"
        using "3.prems" False by linarith+
      from "3.IH"(2) [OF True a [symmetric] r [symmetric] refl refl False p "3.prems"(4)]
      have x: "max val v \<le> fst (ab_max_loop self b d cs (max val v) (max al (max val v)) be st2)"
        and w2: "window_agrees (max al (max val v)) be ?r
          (fst (ab_max_loop self b d cs (max val v) (max al (max val v)) be st2))"
        by simp_all
      from window_max_step [OF w w2 "3.prems"(3) "3.prems"(2) x] x True a r False mm
      show ?thesis by (simp add: Let_def)
    qed
  next
    case False
    with "3.IH"(3) [OF False "3.prems"] show ?thesis by (simp add: mm_max_value_Cons)
  qed
next
  case (4 self b d val al be st)
  then show ?case by (simp add: mm_min_value_Nil window_agrees_def)
next
  case (5 self b d c cs val al be st)
  show ?case
  proof (cases "is_valid b c")
    case True
    let ?b' = "get_new_board b c (opponent self)"
    let ?m = "mm_value self ?b' (d - 1) True"
    let ?r = "mm_min_value self b d cs (10 ^ 9)"
    obtain st1 where a: "apply_move b c (opponent self) st = (?b', st1)"
      by (simp add: apply_move_def)
    obtain v st2 where r: "ab_rec self ?b' (d - 1) al be True st1 = (v, st2)" by force
    have hi: "be \<le> 10 ^ 9" using "5.prems" by simp
    from "5.IH"(1) [OF True a [symmetric] "5.prems"(1,2) hi] r
    have w: "window_agrees al be ?m v" by simp
    have mm: "mm_min_value self b d (c # cs) (10 ^ 9) = min ?m ?r"
      using True mm_min_value_min [of self b d cs ?m "10 ^ 9"]
      by (simp add: mm_min_value_Cons min.commute)
    show ?thesis
    proof (cases "min be (min val v) \<le> al")
      case cut: True
      from window_min_cut [OF w "5.prems"(2) cut "5.prems"(3), of ?r] True a r cut mm
      show ?thesis by (simp add: Let_def)
    next
      case False
      have p: "al < min be (min val v)" "min be (min val v) \<le> min val v"
        "min val v \<le> 10 ^ 9"
        using "5.prems" False by linarith+
      from "5.IH"(2) [OF True a [symmetric] r [symmetric] refl refl False "5.prems"(1) p]
      have x: "fst (ab_min_loop self b d cs (min val v) al (min be (min val v)) st2) \<le> min val v"
        and w2: "window_agrees al (min be (min val v)) ?r
          (fst (ab_min_loop self b d cs (min val v) al (min be (min val v)) st2))"
        by simp_all
      from window_min_step [OF w w2 "5.prems"(2) "5.prems"(3) x] x True a r False mm
      show ?thesis by (simp add: Let_def)
    qed
  next
    case False
    with "5.IH"(3) [OF False "5.prems"] show ?thesis by (simp add: mm_min_value_Cons)
  qed
qed

section \<open>Alpha-beta against minimax: the root decision\<close>

lemma ab_min_loop_le:
  fixes mx :: bool
  shows "True \<or> mx \<or> ab_rec self b d al be mx st = ab_rec self b d al be mx st"
    and "True \<or> ab_max_loop self b d cs val al be st = ab_max_loop self b d cs val al be st"
    and "fst (ab_min_loop self b d cs val al be st) \<le> val"
proof (induction self b d al be mx st and self b d cs val al be st and self b d cs val al be st
       rule: ab_rec_ab_max_loop_ab_min_loop.induct)
  case (5 self b d c cs val al be st)
  show ?case
  proof (cases "is_valid b c")
    case True
    obtain b' st1 where a: "apply_move b c (opponent self) st = (b', st1)" by force
    obtain v st2 where r: "ab_rec self b' (d - 1) al be True st1 = (v, st2)" by force
    show ?thesis
    proof (cases "min be (min val v) \<le> al")
      case cut: True
      with True a r show ?thesis by (simp add: Let_def)
    next
      case False
      from "5.IH"(2) [OF True a [symmetric] r [symmetric] refl refl False] True a r False
      show ?thesis by (simp add: Let_def)
    qed
  next
    case False
    with "5.IH"(3) show ?thesis by simp
  qed
qed simp_all

text \<open>
  One root column: the value alpha-beta computes for the child under the window
  \<open>(best_val, 10\<^sup>9)\<close> exceeds \<open>best_val\<close> exactly when the minimax value does, and
  then the two are equal.
\<close>

lemma root_child:
  assumes lo: "- (10 ^ 9) \<le> bv"
  shows "(mm_value self b d False \<le> bv \<and> fst (ab_rec self b d bv (10 ^ 9) False st) \<le> bv) \<or>
         (bv < mm_value self b d False \<and>
          fst (ab_rec self b d bv (10 ^ 9) False st) = mm_value self b d False)"
proof (cases "terminal_or_depth self b d")
  case True
  then show ?thesis by (simp add: ab_rec.simps mm_value_unfold score_advance) linarith
next
  case False
  let ?m = "mm_value self b d False"
  let ?v = "fst (ab_rec self b d bv (10 ^ 9) False st)"
  from False have m: "?m \<le> 10 ^ 9"
    using mm_min_value_le [of self b d "[0..<width b]"] by (simp add: mm_value_unfold)
  from False have v: "?v \<le> 10 ^ 9"
    using ab_min_loop_le(3) [of self b d "[0..<width b]" "10 ^ 9" bv "10 ^ 9" st]
    by (simp add: ab_rec.simps)
  show ?thesis
  proof (cases "bv < 10 ^ 9")
    case True
    from ab_window(1) [OF lo True, of self b d False st]
    have "window_agrees bv (10 ^ 9) ?m ?v" by simp
    with m v show ?thesis by (auto simp: window_agrees_def)
  next
    case False
    with m v show ?thesis by simp
  qed
qed

lemma root_lockstep:
  "- (10 ^ 9) \<le> bv \<Longrightarrow> mbc = None \<or> mbc = Some bc \<Longrightarrow>
   fst (fst (mm_root_loop self board cs bv mbc s)) =
   fst (fst (ab_root_loop self board cs bv bc bv (10 ^ 9) s')) \<and>
   (snd (fst (mm_root_loop self board cs bv mbc s)) =
      Some (snd (fst (ab_root_loop self board cs bv bc bv (10 ^ 9) s'))) \<or>
    snd (fst (mm_root_loop self board cs bv mbc s)) = None \<and> mbc = None \<and>
      snd (fst (ab_root_loop self board cs bv bc bv (10 ^ 9) s')) = bc)"
proof (induction cs arbitrary: bv mbc bc s s')
  case Nil
  then show ?case by auto
next
  case (Cons c cs)
  show ?case
  proof (cases "is_valid board c")
    case True
    let ?b' = "get_new_board board c (player_id self)"
    let ?m = "mm_value self ?b' (depth self - 1) False"
    obtain s1 where a: "apply_move board c (player_id self) s = (?b', s1)"
      by (simp add: apply_move_def)
    obtain s1' where a': "apply_move board c (player_id self) s' = (?b', s1')"
      by (simp add: apply_move_def)
    obtain vm s2 where r: "mm_rec self ?b' (depth self - 1) False s1 = (vm, s2)" by force
    obtain v s2' where r': "ab_rec self ?b' (depth self - 1) bv (10 ^ 9) False s1' = (v, s2')"
      by force
    from mm_rec_fst [of self ?b' "depth self - 1" False s1] r have vm: "vm = ?m" by simp
    from root_child [OF Cons.prems(1), of self ?b' "depth self - 1" s1'] r'
    consider (keep) "?m \<le> bv" "v \<le> bv" | (take) "bv < ?m" "v = ?m" by auto
    then show ?thesis
    proof cases
      case keep
      from Cons.IH [OF Cons.prems, of "note_examined c vm s2" "note_examined c v s2'"]
        True a a' r r' vm keep
      show ?thesis by (simp add: max_def)
    next
      case take
      from take Cons.prems(1) have lo: "- (10 ^ 9) \<le> ?m" by simp
      have "Some c = None \<or> Some c = Some c" by simp
      from Cons.IH [OF lo this, of "note_examined c vm s2" "note_examined c v s2'"]
        True a a' r r' vm take
      show ?thesis by (simp add: max_def)
    qed
  next
    case False
    with Cons.IH [OF Cons.prems, of s s'] show ?thesis by simp
  qed
qed



section \<open>The column returned by the minimax player\<close>

lemma not_terminal_valid:
  "\<not> terminal_or_depth self b d \<Longrightarrow> list_ex (is_valid b) [0..<width b]"
  by (simp add: terminal_or_depth_def Let_def split: if_splits)

lemma mm_value_above:
  fixes st :: search_state and best :: int
  shows "scores_above self \<Longrightarrow> - (10 ^ 9) < mm_value self b d mx"
    and "scores_above self \<Longrightarrow> list_ex (is_valid b) cs \<Longrightarrow>
         - (10 ^ 9) < mm_max_value self b d cs (- (10 ^ 9))"
    and "scores_above self \<Longrightarrow> - (10 ^ 9) < mm_min_value self b d cs (10 ^ 9)"
proof (induction self b d mx st and self b d cs best st and self b d cs best st
       rule: mm_rec_mm_max_loop_mm_min_loop.induct)
  case (1 self b d maximizing st)
  show ?case
  proof (cases "terminal_or_depth self b d")
    case True
    with "1.prems" show ?thesis by (simp add: mm_value_unfold scores_above_def)
  next
    case False
    show ?thesis
    proof (cases maximizing)
      case True
      from "1.IH"(1) [OF False True "1.prems" not_terminal_valid [OF False]] False True
      show ?thesis by (simp add: mm_value_unfold)
    next
      case nmx: False
      from "1.IH"(2) [OF False nmx "1.prems"] False nmx
      show ?thesis by (simp add: mm_value_unfold)
    qed
  qed
next
  case (2 self b d best st)
  then show ?case by simp
next
  case (3 self b d c cs best st)
  show ?case
  proof (cases "is_valid b c")
    case True
    let ?b' = "get_new_board b c (player_id self)"
    obtain st1 where a: "apply_move b c (player_id self) st = (?b', st1)"
      by (simp add: apply_move_def)
    from "3.IH"(1) [OF True a [symmetric] "3.prems"(1)]
    have "- (10 ^ 9) < mm_value self ?b' (d - 1) False" .
    with True mm_max_value_max [of self b d cs "mm_value self ?b' (d - 1) False" "- (10 ^ 9)"]
    show ?thesis by (simp add: mm_max_value_Cons max.commute)
  next
    case False
    with "3.IH"(3) [OF False "3.prems"(1)] "3.prems"(2) show ?thesis
      by (simp add: mm_max_value_Cons)
  qed
next
  case (4 self b d best st)
  then show ?case by (simp add: mm_min_value_Nil)
next
  case (5 self b d c cs best st)
  show ?case
  proof (cases "is_valid b c")
    case True
    let ?b' = "get_new_board b c (opponent self)"
    obtain st1 where a: "apply_move b c (opponent self) st = (?b', st1)"
      by (simp add: apply_move_def)
    obtain v st2 where r: "mm_rec self ?b' (d - 1) True st1 = (v, st2)" by force
    from "5.IH"(1) [OF True a [symmetric] "5.prems"]
    have m: "- (10 ^ 9) < mm_value self ?b' (d - 1) True" .
    from "5.IH"(2) [OF True a [symmetric] r [symmetric] "5.prems"]
    have "- (10 ^ 9) < mm_min_value self b d cs (10 ^ 9)" .
    with m True mm_min_value_min [of self b d cs "mm_value self ?b' (d - 1) True" "10 ^ 9"]
    show ?thesis by (simp add: mm_min_value_Cons min.commute)
  next
    case False
    with "5.IH"(3) [OF False "5.prems"] show ?thesis by (simp add: mm_min_value_Cons)
  qed
qed


lemma mm_root_loop_some:
  "mbc \<noteq> None \<Longrightarrow> snd (fst (mm_root_loop self board cs bv mbc st)) \<noteq> None"
  by (induction cs arbitrary: bv mbc st) (auto split: prod.splits)

lemma mm_root_loop_found:
  "scores_above self \<Longrightarrow> bv \<le> - (10 ^ 9) \<Longrightarrow> list_ex (is_valid board) cs \<Longrightarrow>
   snd (fst (mm_root_loop self board cs bv mbc st)) \<noteq> None"
proof (induction cs arbitrary: st)
  case Nil
  then show ?case by simp
next
  case (Cons x cs)
  show ?case
  proof (cases "is_valid board x")
    case True
    let ?b' = "get_new_board board x (player_id self)"
    obtain st1 where a: "apply_move board x (player_id self) st = (?b', st1)"
      by (simp add: apply_move_def)
    obtain v st2 where r: "mm_rec self ?b' (depth self - 1) False st1 = (v, st2)" by force
    from mm_rec_fst [of self ?b' "depth self - 1" False st1] r
      mm_value_above(1) [OF Cons.prems(1), of ?b' "depth self - 1" False] Cons.prems(2)
    have "bv < v" by simp
    with True a r mm_root_loop_some [of "Some x" self board cs v "note_examined x v st2"]
    show ?thesis by simp
  next
    case False
    with Cons show ?thesis by simp
  qed
qed

text \<open>
  With a legal column and scores above \<open>-10\<^sup>9\<close> minimax chooses a column, so the two
  players return the same one.
\<close>

lemma same_column_when_legal:
  assumes "scores_above self" "list_ex (is_valid board) [0..<width board]"
  shows "fst (AlphaBetaPlayer_make_move self board st') = fst (MinMaxPlayer_make_move self board st)"
proof -
  let ?m = "mm_root_loop self board [0..<width board] (- (10 ^ 9)) None st"
  let ?a = "ab_root_loop self board [0..<width board] (- (10 ^ 9)) 0 (- (10 ^ 9)) (10 ^ 9) st'"
  from mm_root_loop_found [OF assms(1) _ assms(2), where bv = "- (10 ^ 9)" and mbc = None and st = st]
  have "snd (fst ?m) \<noteq> None" by simp
  with root_lockstep [of "- (10 ^ 9)" None 0 self board "[0..<width board]" st st']
  have "snd (fst ?m) = Some (snd (fst ?a))" by auto
  then show ?thesis
    by (auto simp: AlphaBetaPlayer_make_move_def MinMaxPlayer_make_move_def ab_root_def mm_root_def
        split: prod.splits)
qed





section \<open>Order of examination and ties at the root\<close>











section \<open>Alpha-beta against minimax: leaf evaluations\<close>

lemma mm_max_evals_best:
  "mm_max_evals self b d cs best = mm_max_evals self b d cs best'"
proof (induction cs arbitrary: best best')
  case Nil
  then show ?case by (simp add: mm_max_evals_Nil)
next
  case (Cons c cs)
  show ?case
    using Cons.IH [of best best']
      Cons.IH [of "max best (mm_value self (get_new_board b c (player_id self)) (d - 1) False)"
        "max best' (mm_value self (get_new_board b c (player_id self)) (d - 1) False)"]
    by (simp add: mm_max_evals_Cons)
qed

lemma mm_min_evals_best:
  "mm_min_evals self b d cs best = mm_min_evals self b d cs best'"
proof (induction cs arbitrary: best best')
  case Nil
  then show ?case by (simp add: mm_min_evals_Nil)
next
  case (Cons c cs)
  show ?case
    using Cons.IH [of best best']
      Cons.IH [of "min best (mm_value self (get_new_board b c (opponent self)) (d - 1) True)"
        "min best' (mm_value self (get_new_board b c (opponent self)) (d - 1) True)"]
    by (simp add: mm_min_evals_Cons)
qed

lemma list_ex_filter_length: "list_ex P xs \<Longrightarrow> 1 \<le> length (filter P xs)"
  by (induction xs) auto

text \<open>Minimax evaluates at least one leaf below every legal column.\<close>

lemma mm_evals_ge:
  fixes st :: search_state
  shows "1 \<le> mm_evals self b d mx"
    and "length (filter (is_valid b) cs) \<le> mm_max_evals self b d cs best"
    and "length (filter (is_valid b) cs) \<le> mm_min_evals self b d cs best"
proof (induction self b d mx st and self b d cs best st and self b d cs best st
       rule: mm_rec_mm_max_loop_mm_min_loop.induct)
  case (1 self b d maximizing st)
  show ?case
  proof (cases "terminal_or_depth self b d")
    case True
    then show ?thesis by (simp add: mm_evals_unfold)
  next
    case False
    from list_ex_filter_length [OF not_terminal_valid [OF False]]
    have n: "1 \<le> length (filter (is_valid b) [0..<width b])" .
    show ?thesis
    proof (cases maximizing)
      case True
      from "1.IH"(1) [OF False True] n False True show ?thesis by (simp add: mm_evals_unfold)
    next
      case nmx: False
      from "1.IH"(2) [OF False nmx] n False nmx show ?thesis by (simp add: mm_evals_unfold)
    qed
  qed
next
  case (2 self b d best st)
  then show ?case by simp
next
  case (3 self b d c cs best st)
  show ?case
  proof (cases "is_valid b c")
    case True
    let ?b' = "get_new_board b c (player_id self)"
    obtain st1 where a: "apply_move b c (player_id self) st = (?b', st1)"
      by (simp add: apply_move_def)
    obtain v st2 where r: "mm_rec self ?b' (d - 1) False st1 = (v, st2)" by force
    from mm_rec_fst [of self ?b' "d - 1" False st1] r
    have v: "v = mm_value self ?b' (d - 1) False" by simp
    from "3.IH"(1) [OF True a [symmetric]] "3.IH"(2) [OF True a [symmetric] r [symmetric]] True v
    show ?thesis by (simp add: mm_max_evals_Cons)
  next
    case False
    with "3.IH"(3) show ?thesis by (simp add: mm_max_evals_Cons)
  qed
next
  case (4 self b d best st)
  then show ?case by simp
next
  case (5 self b d c cs best st)
  show ?case
  proof (cases "is_valid b c")
    case True
    let ?b' = "get_new_board b c (opponent self)"
    obtain st1 where a: "apply_move b c (opponent self) st = (?b', st1)"
      by (simp add: apply_move_def)
    obtain v st2 where r: "mm_rec self ?b' (d - 1) True st1 = (v, st2)" by force
    from mm_rec_fst [of self ?b' "d - 1" True st1] r
    have v: "v = mm_value self ?b' (d - 1) True" by simp
    from "5.IH"(1) [OF True a [symmetric]] "5.IH"(2) [OF True a [symmetric] r [symmetric]] True v
    show ?thesis by (simp add: mm_min_evals_Cons)
  next
    case False
    with "5.IH"(3) show ?thesis by (simp add: mm_min_evals_Cons)
  qed
qed

lemma skipped_advance: "skipped (advance k ms s) = skipped s"
  by (simp add: advance_def)

text \<open>
  Alpha-beta evaluates no more leaves than minimax below a node, and fewer by at least the
  number of legal columns its cutoffs leave unexamined.
\<close>

lemma ab_evals_le:
  "skipped st \<le> skipped (snd (ab_rec self b d al be mx st)) \<and>
   eval_count (snd (ab_rec self b d al be mx st)) + skipped (snd (ab_rec self b d al be mx st))
     \<le> eval_count st + skipped st + mm_evals self b d mx"
  "skipped st \<le> skipped (snd (ab_max_loop self b d cs val al be st)) \<and>
   eval_count (snd (ab_max_loop self b d cs val al be st)) +
     skipped (snd (ab_max_loop self b d cs val al be st))
     \<le> eval_count st + skipped st + mm_max_evals self b d cs val"
  "skipped st \<le> skipped (snd (ab_min_loop self b d cs val al be st)) \<and>
   eval_count (snd (ab_min_loop self b d cs val al be st)) +
     skipped (snd (ab_min_loop self b d cs val al be st))
     \<le> eval_count st + skipped st + mm_min_evals self b d cs val"
proof (induction self b d al be mx st and self b d cs val al be st and self b d cs val al be st
       rule: ab_rec_ab_max_loop_ab_min_loop.induct)
  case (1 self b d al be maximizing st)
  show ?case
  proof (cases "terminal_or_depth self b d")
    case True
    then show ?thesis
      by (simp add: ab_rec.simps mm_evals_unfold score_advance eval_count_advance skipped_advance)
  next
    case False
    show ?thesis
    proof (cases maximizing)
      case True
      from "1.IH"(1) [OF False True] False True show ?thesis
        by (simp add: ab_rec.simps mm_evals_unfold)
    next
      case nmx: False
      from "1.IH"(2) [OF False nmx] False nmx show ?thesis
        by (simp add: ab_rec.simps mm_evals_unfold)
    qed
  qed
next
  case (2 self b d val al be st)
  then show ?case by simp
next
  case (3 self b d c cs val al be st)
  show ?case
  proof (cases "is_valid b c")
    case True
    let ?b' = "get_new_board b c (player_id self)"
    let ?m = "mm_value self ?b' (d - 1) False"
    have a: "apply_move b c (player_id self) st = (?b', advance 0 [(b, c)] st)"
      by (simp add: apply_move_advance)
    obtain v st2 where r: "ab_rec self ?b' (d - 1) al be False (advance 0 [(b, c)] st) = (v, st2)"
      by force
    from "3.IH"(1) [OF True a [symmetric]] r
    have s2: "skipped st \<le> skipped st2"
      and e2: "eval_count st2 + skipped st2 \<le> eval_count st + skipped st + mm_evals self ?b' (d - 1) False"
      by (simp_all add: eval_count_advance skipped_advance)
    have mm: "mm_max_evals self b d (c # cs) val =
        mm_evals self ?b' (d - 1) False + mm_max_evals self b d cs (max val v)"
      using True mm_max_evals_best [of self b d cs "max val ?m" "max val v"]
      by (simp add: mm_max_evals_Cons)
    show ?thesis
    proof (cases "be \<le> max al (max val v)")
      case cut: True
      from mm_evals_ge(2) [of b cs self d "max val v"] s2 e2 True a r cut mm
      show ?thesis by (simp add: Let_def)
    next
      case False
      from "3.IH"(2) [OF True a [symmetric] r [symmetric] refl refl False] s2 e2 True a r False mm
      show ?thesis by (simp add: Let_def)
    qed
  next
    case False
    with "3.IH"(3) show ?thesis by (simp add: mm_max_evals_Cons)
  qed
next
  case (4 self b d val al be st)
  then show ?case by simp
next
  case (5 self b d c cs val al be st)
  show ?case
  proof (cases "is_valid b c")
    case True
    let ?b' = "get_new_board b c (opponent self)"
    let ?m = "mm_value self ?b' (d - 1) True"
    have a: "apply_move b c (opponent self) st = (?b', advance 0 [(b, c)] st)"
      by (simp add: apply_move_advance)
    obtain v st2 where r: "ab_rec self ?b' (d - 1) al be True (advance 0 [(b, c)] st) = (v, st2)"
      by force
    from "5.IH"(1) [OF True a [symmetric]] r
    have s2: "skipped st \<le> skipped st2"
      and e2: "eval_count st2 + skipped st2 \<le> eval_count st + skipped st + mm_evals self ?b' (d - 1) True"
      by (simp_all add: eval_count_advance skipped_advance)
    have mm: "mm_min_evals self b d (c # cs) val =
        mm_evals self ?b' (d - 1) True + mm_min_evals self b d cs (min val v)"
      using True mm_min_evals_best [of self b d cs "min val ?m" "min val v"]
      by (simp add: mm_min_evals_Cons)
    show ?thesis
    proof (cases "min be (min val v) \<le> al")
      case cut: True
      from mm_evals_ge(3) [of b cs self d "min val v"] s2 e2 True a r cut mm
      show ?thesis by (simp add: Let_def)
    next
      case False
      from "5.IH"(2) [OF True a [symmetric] r [symmetric] refl refl False] s2 e2 True a r False mm
      show ?thesis by (simp add: Let_def)
    qed
  next
    case False
    with "5.IH"(3) show ?thesis by (simp add: mm_min_evals_Cons)
  qed
qed

lemma root_evals_le:
  "skipped st \<le> skipped (snd (ab_root_loop self board cs bv bc al be st)) \<and>
   eval_count (snd (ab_root_loop self board cs bv bc al be st)) +
     skipped (snd (ab_root_loop self board cs bv bc al be st)) + eval_count sm
     \<le> eval_count st + skipped st + eval_count (snd (mm_root_loop self board cs bv' mbc sm))"
proof (induction cs arbitrary: bv bc al st bv' mbc sm)
  case Nil
  then show ?case by simp
next
  case (Cons c cs)
  show ?case
  proof (cases "is_valid board c")
    case True
    let ?b' = "get_new_board board c (player_id self)"
    have a: "apply_move board c (player_id self) st = (?b', advance 0 [(board, c)] st)"
      by (simp add: apply_move_advance)
    have am: "apply_move board c (player_id self) sm = (?b', advance 0 [(board, c)] sm)"
      by (simp add: apply_move_advance)
    obtain v st2
      where r: "ab_rec self ?b' (depth self - 1) al be False (advance 0 [(board, c)] st) = (v, st2)"
      by force
    obtain vm sm2
      where rm: "mm_rec self ?b' (depth self - 1) False (advance 0 [(board, c)] sm) = (vm, sm2)"
      by force
    from ab_evals_le(1) [of "advance 0 [(board, c)] st" self ?b' "depth self - 1" al be False] r
    have s2: "skipped st \<le> skipped st2"
      and e2: "eval_count st2 + skipped st2
          \<le> eval_count st + skipped st + mm_evals self ?b' (depth self - 1) False"
      by (simp_all add: eval_count_advance skipped_advance)
    from mm_rec_evals [of self ?b' "depth self - 1" False "advance 0 [(board, c)] sm"] rm
    have em: "eval_count sm2 = eval_count sm + mm_evals self ?b' (depth self - 1) False"
      by (simp add: eval_count_advance)
    have n: "eval_count (note_examined c v st2) = eval_count st2"
      "skipped (note_examined c v st2) = skipped st2"
      "eval_count (note_examined c vm sm2) = eval_count sm2"
      by (simp_all add: note_examined_def)
    show ?thesis
    proof (cases "bv < v")
      case up: True
      show ?thesis
      proof (cases "bv' < vm")
        case upm: True
        from Cons.IH [of "note_examined c v st2" v c "max al v" "note_examined c vm sm2" vm "Some c"]
          s2 e2 em n True a am r rm up upm
        show ?thesis by simp
      next
        case False
        from Cons.IH [of "note_examined c v st2" v c "max al v" "note_examined c vm sm2" bv' mbc]
          s2 e2 em n True a am r rm up False
        show ?thesis by simp
      qed
    next
      case nup: False
      show ?thesis
      proof (cases "bv' < vm")
        case upm: True
        from Cons.IH [of "note_examined c v st2" bv bc "max al bv" "note_examined c vm sm2" vm "Some c"]
          s2 e2 em n True a am r rm nup upm
        show ?thesis by simp
      next
        case False
        from Cons.IH [of "note_examined c v st2" bv bc "max al bv" "note_examined c vm sm2" bv' mbc]
          s2 e2 em n True a am r rm nup False
        show ?thesis by simp
      qed
    qed
  next
    case False
    with Cons.IH [of st bv bc al sm bv' mbc] show ?thesis by simp
  qed
qed

text \<open>
  C2, in the form that holds of the code.
  From the same state, on the same board, with the same player,
  \<^verbatim>\<open>AlphaBetaPlayer.make_move\<close> performs at most as many leaf evaluations as
  \<^verbatim>\<open>MinMaxPlayer.make_move\<close>, and strictly fewer whenever a cutoff leaves at least one legal
  column of its node unexamined.
\<close>

theorem alphabeta_evals_le:
  "eval_count (snd (AlphaBetaPlayer_make_move self board st))
     \<le> eval_count (snd (MinMaxPlayer_make_move self board st)) \<and>
   (skipped st < skipped (snd (AlphaBetaPlayer_make_move self board st)) \<longrightarrow>
    eval_count (snd (AlphaBetaPlayer_make_move self board st))
      < eval_count (snd (MinMaxPlayer_make_move self board st)))"
proof -
  let ?a = "snd (ab_root_loop self board [0..<width board] (- (10 ^ 9)) 0 (- (10 ^ 9)) (10 ^ 9) st)"
  let ?m = "snd (mm_root_loop self board [0..<width board] (- (10 ^ 9)) None st)"
  have a: "snd (AlphaBetaPlayer_make_move self board st) = ?a"
    by (simp add: AlphaBetaPlayer_make_move_def ab_root_def split: prod.splits)
  have m: "snd (MinMaxPlayer_make_move self board st) = ?m"
    by (simp add: MinMaxPlayer_make_move_def mm_root_def split: prod.splits)
  from root_evals_le [of st self board "[0..<width board]" "- (10 ^ 9)" 0 "- (10 ^ 9)" "10 ^ 9"
      st "- (10 ^ 9)" None]
  have "skipped st \<le> skipped ?a"
    and "eval_count ?a + skipped ?a + eval_count st \<le> eval_count st + skipped st + eval_count ?m"
    by simp_all
  then show ?thesis unfolding a m by linarith
qed

theorem alphabeta_evals_le_witness:
  "skipped init_state
     < skipped (snd (AlphaBetaPlayer_make_move (example_player zero_heuristic 3) [[None], [None], [None]] init_state)) \<and>
   eval_count (snd (AlphaBetaPlayer_make_move (example_player zero_heuristic 3) [[None], [None], [None]] init_state))
     < eval_count (snd (MinMaxPlayer_make_move (example_player zero_heuristic 3) [[None], [None], [None]] init_state))"
proof -
  have h: "skipped init_state
     < skipped (snd (AlphaBetaPlayer_make_move (example_player zero_heuristic 3) [[None], [None], [None]] init_state))"
    by (simp add: run_defs)
  from alphabeta_evals_le [of "example_player zero_heuristic 3" "[[None], [None], [None]]" init_state] h
  show ?thesis by blast
qed

text \<open>
  C2 as stated fails when a cutoff fires after the last legal column of its node: at depth 2
  on a board of two columns of height 1 the second root child is cut off after its only
  legal column, and both players evaluate two leaves.
\<close>

theorem alphabeta_evals_le_counterexample:
  "cutoffs (snd (AlphaBetaPlayer_make_move (example_player zero_heuristic 2) [[None], [None]] init_state)) = 1 \<and>
   eval_count (snd (AlphaBetaPlayer_make_move (example_player zero_heuristic 2) [[None], [None]] init_state)) = 2 \<and>
   eval_count (snd (MinMaxPlayer_make_move (example_player zero_heuristic 2) [[None], [None]] init_state)) = 2"
  by (simp add: run_defs)

section \<open>Depth of the search for a depth of at least 1\<close>

lemma get_new_board_empties_eq:
  assumes "is_valid b c"
  shows "Suc (empties (get_new_board b c p)) = empties b"
proof -
  from assms have c: "c < length b" and e: "None \<in> set (b ! c)"
    by (simp_all add: is_valid_def)
  from empties_update [OF c, of "drop_piece (b ! c) p"] drop_piece_empties [OF e, of p] c
  show ?thesis by (simp add: get_new_board_def)
qed

lemma within_plies_score: "within_plies root n st \<Longrightarrow> within_plies root n (snd (score self b st))"
  by (simp add: within_plies_def score_def evaluate_board_def)

lemma within_plies_apply_move:
  "within_plies root n st \<Longrightarrow> empties root < empties b + n \<Longrightarrow>
   within_plies root n (snd (apply_move b c p st))"
  by (simp add: within_plies_def apply_move_def)

lemma within_plies_cut:
  "within_plies root n st \<Longrightarrow> within_plies root n (st\<lparr>cutoffs := k, skipped := j\<rparr>)"
  by (simp add: within_plies_def)

lemma within_plies_note:
  "within_plies root n st \<Longrightarrow> within_plies root n (note_examined c v st)"
  by (simp add: within_plies_def note_examined_def)

lemma not_terminal_depth: "\<not> terminal_or_depth self b d \<Longrightarrow> d \<noteq> 0"
  by (simp add: terminal_or_depth_def Let_def split: if_splits)

lemma child_plies:
  assumes "is_valid b c" "1 \<le> d" "empties root + nat d \<le> empties b + n"
  shows "0 \<le> d - 1" "empties root + nat (d - 1) \<le> empties (get_new_board b c p) + n"
    "empties root < empties b + n"
  using assms get_new_board_empties_eq [OF assms(1), of p] by linarith+

lemma mm_rec_within:
  "0 \<le> d \<Longrightarrow> empties root + nat d \<le> empties b + n \<Longrightarrow> within_plies root n st \<Longrightarrow>
   within_plies root n (snd (mm_rec self b d mx st))"
  "1 \<le> d \<Longrightarrow> empties root + nat d \<le> empties b + n \<Longrightarrow> within_plies root n st \<Longrightarrow>
   within_plies root n (snd (mm_max_loop self b d cs best st))"
  "1 \<le> d \<Longrightarrow> empties root + nat d \<le> empties b + n \<Longrightarrow> within_plies root n st \<Longrightarrow>
   within_plies root n (snd (mm_min_loop self b d cs best st))"
proof (induction self b d mx st and self b d cs best st and self b d cs best st
       rule: mm_rec_mm_max_loop_mm_min_loop.induct)
  case (1 self b d maximizing st)
  show ?case
  proof (cases "terminal_or_depth self b d")
    case True
    with "1.prems"(3) show ?thesis by (simp add: mm_rec.simps within_plies_score)
  next
    case False
    from not_terminal_depth [OF False] "1.prems"(1) have d: "1 \<le> d" by simp
    show ?thesis
    proof (cases maximizing)
      case True
      from "1.IH"(1) [OF False True d "1.prems"(2,3)] False True
      show ?thesis by (simp add: mm_rec.simps)
    next
      case nmx: False
      from "1.IH"(2) [OF False nmx d "1.prems"(2,3)] False nmx
      show ?thesis by (simp add: mm_rec.simps)
    qed
  qed
next
  case (2 self b d best st)
  then show ?case by simp
next
  case (3 self b d c cs best st)
  show ?case
  proof (cases "is_valid b c")
    case True
    let ?b' = "get_new_board b c (player_id self)"
    note ch = child_plies(1) [OF True "3.prems"(1,2)]
      child_plies(2) [OF True "3.prems"(1,2), where p = "player_id self"]
      child_plies(3) [OF True "3.prems"(1,2)]
    obtain st1 where a: "apply_move b c (player_id self) st = (?b', st1)"
      by (simp add: apply_move_def)
    obtain v st2 where r: "mm_rec self ?b' (d - 1) False st1 = (v, st2)" by force
    from within_plies_apply_move [OF "3.prems"(3) ch(3), of c "player_id self"] a
    have "within_plies root n st1" by simp
    from "3.IH"(1) [OF True a [symmetric] ch(1,2) this] r have "within_plies root n st2" by simp
    from "3.IH"(2) [OF True a [symmetric] r [symmetric] "3.prems"(1,2) this] True a r
    show ?thesis by simp
  next
    case False
    with "3.IH"(3) [OF False "3.prems"] show ?thesis by simp
  qed
next
  case (4 self b d best st)
  then show ?case by simp
next
  case (5 self b d c cs best st)
  show ?case
  proof (cases "is_valid b c")
    case True
    let ?b' = "get_new_board b c (opponent self)"
    note ch = child_plies(1) [OF True "5.prems"(1,2)]
      child_plies(2) [OF True "5.prems"(1,2), where p = "opponent self"]
      child_plies(3) [OF True "5.prems"(1,2)]
    obtain st1 where a: "apply_move b c (opponent self) st = (?b', st1)"
      by (simp add: apply_move_def)
    obtain v st2 where r: "mm_rec self ?b' (d - 1) True st1 = (v, st2)" by force
    from within_plies_apply_move [OF "5.prems"(3) ch(3), of c "opponent self"] a
    have "within_plies root n st1" by simp
    from "5.IH"(1) [OF True a [symmetric] ch(1,2) this] r have "within_plies root n st2" by simp
    from "5.IH"(2) [OF True a [symmetric] r [symmetric] "5.prems"(1,2) this] True a r
    show ?thesis by simp
  next
    case False
    with "5.IH"(3) [OF False "5.prems"] show ?thesis by simp
  qed
qed

lemma ab_rec_within:
  "0 \<le> d \<Longrightarrow> empties root + nat d \<le> empties b + n \<Longrightarrow> within_plies root n st \<Longrightarrow>
   within_plies root n (snd (ab_rec self b d al be mx st))"
  "1 \<le> d \<Longrightarrow> empties root + nat d \<le> empties b + n \<Longrightarrow> within_plies root n st \<Longrightarrow>
   within_plies root n (snd (ab_max_loop self b d cs val al be st))"
  "1 \<le> d \<Longrightarrow> empties root + nat d \<le> empties b + n \<Longrightarrow> within_plies root n st \<Longrightarrow>
   within_plies root n (snd (ab_min_loop self b d cs val al be st))"
proof (induction self b d al be mx st and self b d cs val al be st and self b d cs val al be st
       rule: ab_rec_ab_max_loop_ab_min_loop.induct)
  case (1 self b d al be maximizing st)
  show ?case
  proof (cases "terminal_or_depth self b d")
    case True
    with "1.prems"(3) show ?thesis by (simp add: ab_rec.simps within_plies_score)
  next
    case False
    from not_terminal_depth [OF False] "1.prems"(1) have d: "1 \<le> d" by simp
    show ?thesis
    proof (cases maximizing)
      case True
      from "1.IH"(1) [OF False True d "1.prems"(2,3)] False True
      show ?thesis by (simp add: ab_rec.simps)
    next
      case nmx: False
      from "1.IH"(2) [OF False nmx d "1.prems"(2,3)] False nmx
      show ?thesis by (simp add: ab_rec.simps)
    qed
  qed
next
  case (2 self b d val al be st)
  then show ?case by simp
next
  case (3 self b d c cs val al be st)
  show ?case
  proof (cases "is_valid b c")
    case True
    let ?b' = "get_new_board b c (player_id self)"
    note ch = child_plies(1) [OF True "3.prems"(1,2)]
      child_plies(2) [OF True "3.prems"(1,2), where p = "player_id self"]
      child_plies(3) [OF True "3.prems"(1,2)]
    obtain st1 where a: "apply_move b c (player_id self) st = (?b', st1)"
      by (simp add: apply_move_def)
    obtain v st2 where r: "ab_rec self ?b' (d - 1) al be False st1 = (v, st2)" by force
    from within_plies_apply_move [OF "3.prems"(3) ch(3), of c "player_id self"] a
    have "within_plies root n st1" by simp
    from "3.IH"(1) [OF True a [symmetric] ch(1,2) this] r
    have s2: "within_plies root n st2" by simp
    show ?thesis
    proof (cases "be \<le> max al (max val v)")
      case cut: True
      with True a r s2 show ?thesis by (simp add: Let_def within_plies_cut)
    next
      case False
      from "3.IH"(2) [OF True a [symmetric] r [symmetric] refl refl False "3.prems"(1,2) s2]
        True a r False
      show ?thesis by (simp add: Let_def)
    qed
  next
    case False
    with "3.IH"(3) [OF False "3.prems"] show ?thesis by simp
  qed
next
  case (4 self b d val al be st)
  then show ?case by simp
next
  case (5 self b d c cs val al be st)
  show ?case
  proof (cases "is_valid b c")
    case True
    let ?b' = "get_new_board b c (opponent self)"
    note ch = child_plies(1) [OF True "5.prems"(1,2)]
      child_plies(2) [OF True "5.prems"(1,2), where p = "opponent self"]
      child_plies(3) [OF True "5.prems"(1,2)]
    obtain st1 where a: "apply_move b c (opponent self) st = (?b', st1)"
      by (simp add: apply_move_def)
    obtain v st2 where r: "ab_rec self ?b' (d - 1) al be True st1 = (v, st2)" by force
    from within_plies_apply_move [OF "5.prems"(3) ch(3), of c "opponent self"] a
    have "within_plies root n st1" by simp
    from "5.IH"(1) [OF True a [symmetric] ch(1,2) this] r
    have s2: "within_plies root n st2" by simp
    show ?thesis
    proof (cases "min be (min val v) \<le> al")
      case cut: True
      with True a r s2 show ?thesis by (simp add: Let_def within_plies_cut)
    next
      case False
      from "5.IH"(2) [OF True a [symmetric] r [symmetric] refl refl False "5.prems"(1,2) s2]
        True a r False
      show ?thesis by (simp add: Let_def)
    qed
  next
    case False
    with "5.IH"(3) [OF False "5.prems"] show ?thesis by simp
  qed
qed

lemma mm_root_loop_within:
  "1 \<le> depth self \<Longrightarrow> within_plies board (nat (depth self)) st \<Longrightarrow>
   within_plies board (nat (depth self)) (snd (mm_root_loop self board cs bv bc st))"
proof (induction cs arbitrary: bv bc st)
  case Nil
  then show ?case by simp
next
  case (Cons c cs)
  show ?case
  proof (cases "is_valid board c")
    case True
    let ?b' = "get_new_board board c (player_id self)"
    have "empties board + nat (depth self) \<le> empties board + nat (depth self)" by simp
    note ch = child_plies(1) [OF True Cons.prems(1) this]
      child_plies(2) [OF True Cons.prems(1) this, where p = "player_id self"]
      child_plies(3) [OF True Cons.prems(1) this]
    obtain st1 where a: "apply_move board c (player_id self) st = (?b', st1)"
      by (simp add: apply_move_def)
    obtain v st2 where r: "mm_rec self ?b' (depth self - 1) False st1 = (v, st2)" by force
    from within_plies_apply_move [OF Cons.prems(2) ch(3), of c "player_id self"] a
    have "within_plies board (nat (depth self)) st1" by simp
    from mm_rec_within(1) [OF ch(1,2) this, where self = self and mx = False] r
    have "within_plies board (nat (depth self)) st2" by simp
    from within_plies_note [OF this, of c v] Cons.IH [OF Cons.prems(1)] True a r
    show ?thesis by simp
  next
    case False
    with Cons show ?thesis by simp
  qed
qed

lemma ab_root_loop_within:
  "1 \<le> depth self \<Longrightarrow> within_plies board (nat (depth self)) st \<Longrightarrow>
   within_plies board (nat (depth self)) (snd (ab_root_loop self board cs bv bc al be st))"
proof (induction cs arbitrary: bv bc al st)
  case Nil
  then show ?case by simp
next
  case (Cons c cs)
  show ?case
  proof (cases "is_valid board c")
    case True
    let ?b' = "get_new_board board c (player_id self)"
    have "empties board + nat (depth self) \<le> empties board + nat (depth self)" by simp
    note ch = child_plies(1) [OF True Cons.prems(1) this]
      child_plies(2) [OF True Cons.prems(1) this, where p = "player_id self"]
      child_plies(3) [OF True Cons.prems(1) this]
    obtain st1 where a: "apply_move board c (player_id self) st = (?b', st1)"
      by (simp add: apply_move_def)
    obtain v st2 where r: "ab_rec self ?b' (depth self - 1) al be False st1 = (v, st2)" by force
    from within_plies_apply_move [OF Cons.prems(2) ch(3), of c "player_id self"] a
    have "within_plies board (nat (depth self)) st1" by simp
    from ab_rec_within(1) [OF ch(1,2) this, where self = self and al = al and be = be and mx = False] r
    have "within_plies board (nat (depth self)) st2" by simp
    from within_plies_note [OF this, of c v] Cons.IH [OF Cons.prems(1)] True a r
    show ?thesis by simp
  next
    case False
    with Cons show ?thesis by simp
  qed
qed

text \<open>
  For a configured depth of at least 1 the bound of C8 holds: both players apply moves
  only to boards fewer than \<open>depth\<close> plies below the given board, so no position more than
  \<open>depth\<close> plies below it is reached and no chain of nested \<^verbatim>\<open>rec\<close> calls is longer than
  \<open>depth\<close>.
\<close>

lemma search_within_depth:
  "1 \<le> depth self \<Longrightarrow> within_plies board (nat (depth self)) st \<Longrightarrow>
   within_plies board (nat (depth self)) (snd (MinMaxPlayer_make_move self board st)) \<and>
   within_plies board (nat (depth self)) (snd (AlphaBetaPlayer_make_move self board st))"
  using mm_root_loop_within [of self board st "[0..<width board]" "- (10 ^ 9)" None]
    ab_root_loop_within [of self board st "[0..<width board]" "- (10 ^ 9)" 0 "- (10 ^ 9)" "10 ^ 9"]
  by (auto simp: MinMaxPlayer_make_move_def AlphaBetaPlayer_make_move_def mm_root_def ab_root_def
      split: prod.splits)

section \<open>Depth 0\<close>

text \<open>
  C3. With \<open>depth = 0\<close> each root loop calls \<^verbatim>\<open>rec\<close> with depth \<open>-1\<close>; the test
  \<^verbatim>\<open>depth == 0\<close> of \<^verbatim>\<open>terminal_or_depth\<close> never holds below that, so the search runs to
  the end of the game. On an empty board of three columns of height 1, with the heuristic
  that counts the pieces on the board, every root child scores 1, yet the decision value
  is 3, the score of a full board, and minimax evaluates 6 leaves and alpha-beta 4, not one
  per root child.
\<close>

theorem depth_zero_full_search:
  "evaluate_board_fn pieces_heuristic P1 (get_new_board [[None], [None], [None]] 0 P1) = 1 \<and>
   evaluate_board_fn pieces_heuristic P1 (get_new_board [[None], [None], [None]] 1 P1) = 1 \<and>
   evaluate_board_fn pieces_heuristic P1 (get_new_board [[None], [None], [None]] 2 P1) = 1 \<and>
   fst (fst (mm_root (example_player pieces_heuristic 0) [[None], [None], [None]] init_state)) = 3 \<and>
   fst (fst (ab_root (example_player pieces_heuristic 0) [[None], [None], [None]] init_state)) = 3 \<and>
   eval_count (snd (MinMaxPlayer_make_move (example_player pieces_heuristic 0) [[None], [None], [None]] init_state)) = 6 \<and>
   eval_count (snd (AlphaBetaPlayer_make_move (example_player pieces_heuristic 0) [[None], [None], [None]] init_state)) = 4"
  by (simp add: run_defs)

text \<open>
  C8. With \<open>depth = 0\<close> the calls of \<^verbatim>\<open>rec\<close> nest deeper than the configured depth, even
  with one root ply added: on the same board both players apply a move to a board that
  already holds two pieces, which happens inside the second nested call of \<^verbatim>\<open>rec\<close> and
  starts a third.
\<close>

theorem depth_zero_nested_calls:
  "([[Some P1], [Some P2], [None]], 2) \<in>
     set (applied (snd (MinMaxPlayer_make_move (example_player zero_heuristic 0) [[None], [None], [None]] init_state))) \<and>
   ([[Some P1], [Some P2], [None]], 2) \<in>
     set (applied (snd (AlphaBetaPlayer_make_move (example_player zero_heuristic 0) [[None], [None], [None]] init_state))) \<and>
   \<not> within_plies [[None], [None], [None]] 1
     (snd (MinMaxPlayer_make_move (example_player zero_heuristic 0) [[None], [None], [None]] init_state)) \<and>
   \<not> within_plies [[None], [None], [None]] 1
     (snd (AlphaBetaPlayer_make_move (example_player zero_heuristic 0) [[None], [None], [None]] init_state))"
  by (simp add: run_defs within_plies_def empties_def)

end
